theory Spec2Isabelle
  imports Main "HOL-Library.Word"
begin

section \<open>Python values: strings, bytes, exceptions\<close>

text \<open>
  A Python \<open>str\<close> is a sequence of Unicode code points (surrogates included: a \<open>str\<close> may
  hold a lone surrogate, for instance after \<open>json.loads\<close> of an escaped one); \<open>bytes\<close> is a
  sequence of octets. Exceptions are values: a function that may raise returns
  \<open>py_exception + 'a\<close>, with \<open>Inl\<close> for the exception.
\<close>

type_synonym codepoint = nat
type_synonym pystr = "codepoint list"
type_synonym byte = "8 word"
type_synonym bytes = "byte list"

datatype errno = EBADF | ESRCH | EPERM | EIO | EINTR | EINVAL

datatype py_exception = UnicodeEncodeError | OSError errno | RenderError

definition bnd :: "'e + 'a \<Rightarrow> ('a \<Rightarrow> 'e + 'b) \<Rightarrow> 'e + 'b" where
  "bnd x f = (case x of Inl e \<Rightarrow> Inl e | Inr v \<Rightarrow> f v)"

text \<open>An ASCII literal of the source, as code points.\<close>

definition str :: "string \<Rightarrow> pystr" where
  "str cs = map of_char cs"

definition LBRACE :: codepoint where "LBRACE = 0x7B"
definition RBRACE :: codepoint where "RBRACE = 0x7D"
definition BACKSLASH :: codepoint where "BACKSLASH = 0x5C"

subsection \<open>\<open>str.encode("utf-8")\<close>\<close>

text \<open>
  The strict UTF-8 codec: one to four octets per code point, and \<open>UnicodeEncodeError\<close>
  on a surrogate (U+D800 to U+DFFF). A \<open>str\<close> has no code point above U+10FFFF; the model
  refuses those too.
\<close>

definition scalar_value :: "codepoint \<Rightarrow> bool" where
  "scalar_value c \<longleftrightarrow> c < 0xD800 \<or> (0xDFFF < c \<and> c < 0x110000)"

definition encode_cp :: "codepoint \<Rightarrow> py_exception + bytes" where
  "encode_cp c =
     (if c < 0x80 then Inr [of_nat c]
      else if c < 0x800 then Inr [of_nat (0xC0 + c div 0x40), of_nat (0x80 + c mod 0x40)]
      else if 0xD800 \<le> c \<and> c \<le> 0xDFFF then Inl UnicodeEncodeError
      else if c < 0x10000 then
        Inr [of_nat (0xE0 + c div 0x1000), of_nat (0x80 + c div 0x40 mod 0x40),
             of_nat (0x80 + c mod 0x40)]
      else if c < 0x110000 then
        Inr [of_nat (0xF0 + c div 0x40000), of_nat (0x80 + c div 0x1000 mod 0x40),
             of_nat (0x80 + c div 0x40 mod 0x40), of_nat (0x80 + c mod 0x40)]
      else Inl UnicodeEncodeError)"

fun utf8_encode :: "pystr \<Rightarrow> py_exception + bytes" where
  "utf8_encode [] = Inr []"
| "utf8_encode (c # cs) =
     bnd (encode_cp c) (\<lambda>b. bnd (utf8_encode cs) (\<lambda>bs. Inr (b @ bs)))"

subsection \<open>\<open>str.upper()\<close>\<close>

text \<open>
  \<open>str.upper()\<close> maps code point by code point. On ASCII it sends \<open>a\<close>..\<open>z\<close> to
  \<open>A\<close>..\<open>Z\<close> and leaves everything else alone. The upper-casing of the other code points
  comes from the Unicode character database of the interpreter, which is no part of this
  repository: it is the parameter \<open>U\<close> (a code point may upper-case to several).
\<close>

definition upper_cp :: "(codepoint \<Rightarrow> pystr) \<Rightarrow> codepoint \<Rightarrow> pystr" where
  "upper_cp U c =
     (if c < 0x80 then (if 0x61 \<le> c \<and> c \<le> 0x7A then [c - 0x20] else [c]) else U c)"

definition py_upper :: "(codepoint \<Rightarrow> pystr) \<Rightarrow> pystr \<Rightarrow> pystr" where
  "py_upper U s = concat (map (upper_cp U) s)"

section \<open>keys.py\<close>

subsection \<open>\<open>SPECIAL_KEYS\<close>\<close>

definition SPECIAL_KEYS :: "(pystr \<times> bytes) list" where
  "SPECIAL_KEYS =
   [(str ''ENTER'', [0x0D]),
    (str ''RETURN'', [0x0D]),
    (str ''TAB'', [0x09]),
    (str ''ESC'', [0x1B]),
    (str ''ESCAPE'', [0x1B]),
    (str ''BACKSPACE'', [0x7F]),
    (str ''DELETE'', [0x1B, 0x5B, 0x33, 0x7E]),
    (str ''SPACE'', [0x20]),
    (str ''UP'', [0x1B, 0x5B, 0x41]),
    (str ''DOWN'', [0x1B, 0x5B, 0x42]),
    (str ''RIGHT'', [0x1B, 0x5B, 0x43]),
    (str ''LEFT'', [0x1B, 0x5B, 0x44]),
    (str ''HOME'', [0x1B, 0x5B, 0x48]),
    (str ''END'', [0x1B, 0x5B, 0x46]),
    (str ''PGUP'', [0x1B, 0x5B, 0x35, 0x7E]),
    (str ''PAGEUP'', [0x1B, 0x5B, 0x35, 0x7E]),
    (str ''PGDN'', [0x1B, 0x5B, 0x36, 0x7E]),
    (str ''PAGEDOWN'', [0x1B, 0x5B, 0x36, 0x7E]),
    (str ''INSERT'', [0x1B, 0x5B, 0x32, 0x7E]),
    (str ''F1'', [0x1B, 0x4F, 0x50]),
    (str ''F2'', [0x1B, 0x4F, 0x51]),
    (str ''F3'', [0x1B, 0x4F, 0x52]),
    (str ''F4'', [0x1B, 0x4F, 0x53]),
    (str ''F5'', [0x1B, 0x5B, 0x31, 0x35, 0x7E]),
    (str ''F6'', [0x1B, 0x5B, 0x31, 0x37, 0x7E]),
    (str ''F7'', [0x1B, 0x5B, 0x31, 0x38, 0x7E]),
    (str ''F8'', [0x1B, 0x5B, 0x31, 0x39, 0x7E]),
    (str ''F9'', [0x1B, 0x5B, 0x32, 0x30, 0x7E]),
    (str ''F10'', [0x1B, 0x5B, 0x32, 0x31, 0x7E]),
    (str ''F11'', [0x1B, 0x5B, 0x32, 0x33, 0x7E]),
    (str ''F12'', [0x1B, 0x5B, 0x32, 0x34, 0x7E]),
    (str ''CTRL+A'', [0x01]),
    (str ''CTRL+B'', [0x02]),
    (str ''CTRL+C'', [0x03]),
    (str ''CTRL+D'', [0x04]),
    (str ''CTRL+E'', [0x05]),
    (str ''CTRL+F'', [0x06]),
    (str ''CTRL+G'', [0x07]),
    (str ''CTRL+H'', [0x08]),
    (str ''CTRL+I'', [0x09]),
    (str ''CTRL+J'', [0x0A]),
    (str ''CTRL+K'', [0x0B]),
    (str ''CTRL+L'', [0x0C]),
    (str ''CTRL+M'', [0x0D]),
    (str ''CTRL+N'', [0x0E]),
    (str ''CTRL+O'', [0x0F]),
    (str ''CTRL+P'', [0x10]),
    (str ''CTRL+Q'', [0x11]),
    (str ''CTRL+R'', [0x12]),
    (str ''CTRL+S'', [0x13]),
    (str ''CTRL+T'', [0x14]),
    (str ''CTRL+U'', [0x15]),
    (str ''CTRL+V'', [0x16]),
    (str ''CTRL+W'', [0x17]),
    (str ''CTRL+X'', [0x18]),
    (str ''CTRL+Y'', [0x19]),
    (str ''CTRL+Z'', [0x1A]),
    (str ''CTRL+['', [0x1B]),
    (str ''CTRL+'' @ [BACKSLASH], [0x1C]),
    (str ''CTRL+]'', [0x1D]),
    (str ''CTRL+^'', [0x1E]),
    (str ''CTRL+_'', [0x1F])]"

text \<open>\<open>key_name in SPECIAL_KEYS\<close> and \<open>SPECIAL_KEYS[key_name]\<close>: the dictionary lookup.\<close>

definition special_key :: "pystr \<Rightarrow> bytes option" where
  "special_key key_name = map_of SPECIAL_KEYS key_name"

subsection \<open>\<open>SPECIAL_KEY_PATTERN\<close>\<close>

text \<open>
  The pattern is an opening brace, a group of one or more code points other than the
  closing brace (greedy, and a negated class also takes a newline), and a closing brace.
  Since the group cannot hold a closing brace, the pattern matches at a position exactly
  when the opening brace stands there, the longest run without a closing brace after it is
  not empty, and a closing brace ends the run; backtracking finds nothing else.
  \<open>match_at s\<close> is the match anchored at the start of \<open>s\<close>: the group and the text after it.
\<close>

fun match_at :: "pystr \<Rightarrow> (pystr \<times> pystr) option" where
  "match_at [] = None"
| "match_at (c # t) =
     (if c \<noteq> LBRACE then None
      else (case dropWhile (\<lambda>x. x \<noteq> RBRACE) t of
              [] \<Rightarrow> None
            | _ # rest \<Rightarrow>
                (if takeWhile (\<lambda>x. x \<noteq> RBRACE) t = [] then None
                 else Some (takeWhile (\<lambda>x. x \<noteq> RBRACE) t, rest))))"

datatype re_match = Match (m_start: nat) (m_end: nat) (group1: pystr)

lemma match_at_shorter: "match_at s = Some (name, rest) \<Longrightarrow> length rest < length s"
proof (cases s)
  case Nil
  assume "match_at s = Some (name, rest)"
  with Nil show ?thesis by simp
next
  case (Cons c t)
  assume m: "match_at s = Some (name, rest)"
  have "length (dropWhile (\<lambda>x. x \<noteq> RBRACE) t) \<le> length t"
    by (rule length_dropWhile_le)
  with m Cons show ?thesis
    by (auto split: if_splits list.splits)
qed

text \<open>
  \<open>SPECIAL_KEY_PATTERN.finditer\<close>: the matches from left to right, without overlap; the
  scan resumes at the end of a match, and one position further where nothing matches.
  \<open>finditer_from i s\<close> scans the suffix \<open>s\<close> that starts at index \<open>i\<close> of the input.
\<close>

function finditer_from :: "nat \<Rightarrow> pystr \<Rightarrow> re_match list" where
  "finditer_from i [] = []"
| "finditer_from i (c # t) =
     (case match_at (c # t) of
        None \<Rightarrow> finditer_from (Suc i) t
      | Some (name, rest) \<Rightarrow>
          Match i (i + length name + 2) name # finditer_from (i + length name + 2) rest)"
  by pat_completeness auto
termination
  by (relation "measure (\<lambda>(i, s). length s)") (auto simp del: match_at.simps dest: match_at_shorter)

definition finditer :: "pystr \<Rightarrow> re_match list" where
  "finditer s = finditer_from 0 s"

subsection \<open>\<open>parse_keys\<close>\<close>

text \<open>\<open>input_string[a:b]\<close> for \<open>0 \<le> a \<le> b\<close>.\<close>

definition slice :: "pystr \<Rightarrow> nat \<Rightarrow> nat \<Rightarrow> pystr" where
  "slice s a b = take (b - a) (drop a s)"

text \<open>
  One pass of the \<open>for match in ...\<close> body on the state \<open>(result, pos)\<close>: the text before
  the match when there is some, then the key's bytes or the token as it stands.
\<close>

definition parse_step ::
  "(codepoint \<Rightarrow> pystr) \<Rightarrow> pystr \<Rightarrow> bytes \<times> nat \<Rightarrow> re_match \<Rightarrow> py_exception + bytes \<times> nat" where
  "parse_step U input_string st m =
     (case st of (result, pos) \<Rightarrow>
        bnd (if m_start m > pos
             then bnd (utf8_encode (slice input_string pos (m_start m)))
                      (\<lambda>b. Inr (result @ b))
             else Inr result)
          (\<lambda>result1.
             bnd (case special_key (py_upper U (group1 m)) of
                    Some k \<Rightarrow> Inr (result1 @ k)
                  | None \<Rightarrow>
                      bnd (utf8_encode ([LBRACE] @ group1 m @ [RBRACE]))
                          (\<lambda>b. Inr (result1 @ b)))
               (\<lambda>result2. Inr (result2, m_end m))))"

fun parse_loop ::
  "(codepoint \<Rightarrow> pystr) \<Rightarrow> pystr \<Rightarrow> re_match list \<Rightarrow> bytes \<times> nat \<Rightarrow> py_exception + bytes \<times> nat" where
  "parse_loop U input_string [] st = Inr st"
| "parse_loop U input_string (m # ms) st =
     bnd (parse_step U input_string st m) (parse_loop U input_string ms)"

definition parse_keys :: "(codepoint \<Rightarrow> pystr) \<Rightarrow> pystr \<Rightarrow> py_exception + bytes" where
  "parse_keys U input_string =
     bnd (parse_loop U input_string (finditer input_string) ([], 0))
       (\<lambda>(result, pos).
          if pos < length input_string
          then bnd (utf8_encode (drop pos input_string)) (\<lambda>b. Inr (result @ b))
          else Inr result)"

section \<open>session_manager.py\<close>

subsection \<open>The operating system and the collaborators\<close>

text \<open>
  The code talks to the operating system (\<open>os.close\<close>, \<open>os.kill\<close>, \<open>select.select\<close>,
  \<open>os.read\<close>, \<open>os.write\<close>, \<open>time.sleep\<close>), to the terminal emulator and, in
  \<open>_render_image\<close>, to the imaging library. The model keeps the trace of the calls made so
  far, oldest first, and the environment is any function from that trace to the outcome of
  the next call: every behaviour of a process, a descriptor table or a renderer is one such
  function. Of \<open>_render_image\<close> only the outcome counts here, whether it returns or raises;
  the emulator's \<open>feed\<close> is taken to return. Times are in milliseconds.
\<close>

datatype signal = SIG0 | SIGTERM | SIGKILL

type_synonym path = "pystr list"

datatype call =
    Close int
  | Kill int signal
  | Select int nat
  | Read int nat
  | Write int bytes
  | Sleep nat
  | Render path

type_synonym trace = "call list"

record env =
  close_result :: "trace \<Rightarrow> int \<Rightarrow> errno option"
  kill_result :: "trace \<Rightarrow> int \<Rightarrow> signal \<Rightarrow> errno option"
  select_result :: "trace \<Rightarrow> int \<Rightarrow> errno + bool"
  read_result :: "trace \<Rightarrow> int \<Rightarrow> errno + bytes"
  write_result :: "trace \<Rightarrow> int \<Rightarrow> bytes \<Rightarrow> errno option"
  render_result :: "trace \<Rightarrow> path \<Rightarrow> py_exception option"
  display :: "bytes list \<Rightarrow> pystr list"

text \<open>
  A statement runs on a state and gives a value or an exception, and the new state.
  \<open>seq\<close> is sequencing: an exception skips what follows. \<open>except_OSError m h\<close> is
  \<open>try: m except OSError: h\<close>: any other exception passes through.
\<close>

definition ret :: "'a \<Rightarrow> 'st \<Rightarrow> (py_exception + 'a) \<times> 'st" where
  "ret v st = (Inr v, st)"

definition seq ::
  "('st \<Rightarrow> (py_exception + 'a) \<times> 'st) \<Rightarrow> ('a \<Rightarrow> 'st \<Rightarrow> (py_exception + 'b) \<times> 'st)
     \<Rightarrow> 'st \<Rightarrow> (py_exception + 'b) \<times> 'st" where
  "seq m f st = (case m st of (Inl ex, st') \<Rightarrow> (Inl ex, st') | (Inr v, st') \<Rightarrow> f v st')"

definition except_OSError ::
  "('st \<Rightarrow> (py_exception + 'a) \<times> 'st) \<Rightarrow> ('st \<Rightarrow> (py_exception + 'a) \<times> 'st)
     \<Rightarrow> 'st \<Rightarrow> (py_exception + 'a) \<times> 'st" where
  "except_OSError m h st =
     (case m st of
        (Inl (OSError x), st') \<Rightarrow> h st'
      | (Inl ex, st') \<Rightarrow> (Inl ex, st')
      | (Inr v, st') \<Rightarrow> (Inr v, st'))"

definition os_close :: "env \<Rightarrow> int \<Rightarrow> trace \<Rightarrow> (py_exception + unit) \<times> trace" where
  "os_close e f tr =
     ((case close_result e tr f of Some x \<Rightarrow> Inl (OSError x) | None \<Rightarrow> Inr ()),
      tr @ [Close f])"

definition os_kill :: "env \<Rightarrow> int \<Rightarrow> signal \<Rightarrow> trace \<Rightarrow> (py_exception + unit) \<times> trace" where
  "os_kill e p sg tr =
     ((case kill_result e tr p sg of Some x \<Rightarrow> Inl (OSError x) | None \<Rightarrow> Inr ()),
      tr @ [Kill p sg])"

definition time_sleep :: "nat \<Rightarrow> trace \<Rightarrow> (py_exception + unit) \<times> trace" where
  "time_sleep ms tr = (Inr (), tr @ [Sleep ms])"

text \<open>\<open>select.select([fd], [], [], timeout)\<close>: whether the descriptor came back ready.\<close>

definition select_select :: "env \<Rightarrow> int \<Rightarrow> nat \<Rightarrow> trace \<Rightarrow> (py_exception + bool) \<times> trace" where
  "select_select e f timeout tr =
     ((case select_result e tr f of Inl x \<Rightarrow> Inl (OSError x) | Inr ready \<Rightarrow> Inr ready),
      tr @ [Select f timeout])"

text \<open>\<open>os.read(fd, n)\<close> returns at most \<open>n\<close> bytes of what is there to read.\<close>

definition os_read :: "env \<Rightarrow> int \<Rightarrow> nat \<Rightarrow> trace \<Rightarrow> (py_exception + bytes) \<times> trace" where
  "os_read e f n tr =
     ((case read_result e tr f of Inl x \<Rightarrow> Inl (OSError x) | Inr data \<Rightarrow> Inr (take n data)),
      tr @ [Read f n])"

definition os_write :: "env \<Rightarrow> int \<Rightarrow> bytes \<Rightarrow> trace \<Rightarrow> (py_exception + unit) \<times> trace" where
  "os_write e f data tr =
     ((case write_result e tr f data of Some x \<Rightarrow> Inl (OSError x) | None \<Rightarrow> Inr ()),
      tr @ [Write f data])"

definition render_image :: "env \<Rightarrow> path \<Rightarrow> trace \<Rightarrow> (py_exception + unit) \<times> trace" where
  "render_image e p tr =
     ((case render_result e tr p of Some ex \<Rightarrow> Inl ex | None \<Rightarrow> Inr ()),
      tr @ [Render p])"

subsection \<open>\<open>TUISession\<close>\<close>

text \<open>
  The dataclass. The emulator's screen and stream are the collaborator's: the field
  \<open>fed\<close> holds the chunks \<open>stream.feed\<close> has received, which decide what the screen shows
  (\<open>display\<close> of the environment).
\<close>

record session =
  session_id :: pystr
  command :: pystr
  rows :: int
  cols :: int
  pid :: int
  fd :: int
  fed :: "bytes list"
  session_dir :: path
  created_at :: nat
  capture_count :: int

text \<open>The constructor as \<open>spawn\<close> calls it: \<open>capture_count\<close> takes its default, 0.\<close>

definition TUISession ::
  "pystr \<Rightarrow> pystr \<Rightarrow> int \<Rightarrow> int \<Rightarrow> int \<Rightarrow> int \<Rightarrow> path \<Rightarrow> nat \<Rightarrow> session" where
  "TUISession i c r k p f d now =
     \<lparr>session_id = i, command = c, rows = r, cols = k, pid = p, fd = f, fed = [],
      session_dir = d, created_at = now, capture_count = 0\<rparr>"

definition is_alive :: "env \<Rightarrow> session \<Rightarrow> trace \<Rightarrow> (py_exception + bool) \<times> trace" where
  "is_alive e s =
     except_OSError (seq (os_kill e (pid s) SIG0) (\<lambda>_. ret True)) (ret False)"

text \<open>
  \<open>_read_output\<close>. The state is the session (the emulator is fed) and the trace;
  \<open>select.select\<close> stands outside the \<open>try\<close>, so its exception leaves the function.
\<close>

function read_loop ::
  "env \<Rightarrow> nat \<Rightarrow> int \<Rightarrow> int \<Rightarrow> bytes \<Rightarrow> session \<times> trace
     \<Rightarrow> (py_exception + bytes) \<times> (session \<times> trace)" where
  "read_loop e timeout max_reads reads output (s, tr) =
     (if reads < max_reads then
        (case select_select e (fd s) timeout tr of
           (Inl ex, tr1) \<Rightarrow> (Inl ex, (s, tr1))
         | (Inr ready, tr1) \<Rightarrow>
             (if \<not> ready then (Inr output, (s, tr1))
              else (case os_read e (fd s) 8192 tr1 of
                      (Inl (OSError x), tr2) \<Rightarrow> (Inr output, (s, tr2))
                    | (Inl ex, tr2) \<Rightarrow> (Inl ex, (s, tr2))
                    | (Inr chunk, tr2) \<Rightarrow>
                        (if chunk = [] then (Inr output, (s, tr2))
                         else read_loop e timeout max_reads (reads + 1) (output @ chunk)
                                (s\<lparr>fed := fed s @ [chunk]\<rparr>, tr2)))))
      else (Inr output, (s, tr)))"
  by pat_completeness auto
termination
  by (relation "measure (\<lambda>(e, timeout, max_reads, reads, output, st). nat (max_reads - reads))")
     auto

definition read_output ::
  "env \<Rightarrow> nat \<Rightarrow> int \<Rightarrow> session \<times> trace \<Rightarrow> (py_exception + bytes) \<times> (session \<times> trace)" where
  "read_output e timeout max_reads = read_loop e timeout max_reads 0 []"

text \<open>The defaults of \<open>_read_output\<close>: 0.1 s and 100 reads.\<close>

definition read_output_default ::
  "env \<Rightarrow> session \<times> trace \<Rightarrow> (py_exception + bytes) \<times> (session \<times> trace)" where
  "read_output_default e = read_output e 100 100"

text \<open>
  \<open>send\<close>: one write, the wait, one drain. \<open>on_trace\<close> runs a statement of the operating
  system in a state that holds more than the trace.
\<close>

definition on_trace ::
  "(trace \<Rightarrow> (py_exception + 'a) \<times> trace) \<Rightarrow> 'st \<times> trace \<Rightarrow> (py_exception + 'a) \<times> ('st \<times> trace)" where
  "on_trace m st = (case st of (x, tr) \<Rightarrow> (case m tr of (r, tr') \<Rightarrow> (r, (x, tr'))))"

definition send ::
  "env \<Rightarrow> bytes \<Rightarrow> int \<Rightarrow> session \<times> trace \<Rightarrow> (py_exception + unit) \<times> (session \<times> trace)" where
  "send e data wait_ms =
     (\<lambda>(s, tr).
        seq (on_trace (os_write e (fd s) data))
          (\<lambda>_. seq (on_trace (time_sleep (nat wait_ms)))
            (\<lambda>_. seq (read_output_default e) (\<lambda>_. ret ()))) (s, tr))"

subsubsection \<open>\<open>capture\<close>\<close>

text \<open>\<open>line.rstrip()\<close> removes the trailing white space, in Python's sense of white space.\<close>

definition isspace :: "codepoint \<Rightarrow> bool" where
  "isspace c \<longleftrightarrow>
     (0x09 \<le> c \<and> c \<le> 0x0D) \<or> (0x1C \<le> c \<and> c \<le> 0x20) \<or> c = 0x85 \<or> c = 0xA0
     \<or> c = 0x1680 \<or> (0x2000 \<le> c \<and> c \<le> 0x200A) \<or> c = 0x2028 \<or> c = 0x2029
     \<or> c = 0x202F \<or> c = 0x205F \<or> c = 0x3000"

definition rstrip :: "pystr \<Rightarrow> pystr" where
  "rstrip line = rev (dropWhile isspace (rev line))"

fun join_lines :: "pystr list \<Rightarrow> pystr" where
  "join_lines [] = []"
| "join_lines [l] = l"
| "join_lines (l # ls) = l @ [0x0A] @ join_lines ls"

text \<open>The format \<open>04d\<close>: decimal, padded with zeros to four characters, sign included.\<close>

fun digits :: "nat \<Rightarrow> pystr" where
  "digits n = (if n < 10 then [0x30 + n] else digits (n div 10) @ [0x30 + n mod 10])"

declare digits.simps [simp del]

definition zfill :: "nat \<Rightarrow> pystr \<Rightarrow> pystr" where
  "zfill w ds = replicate (w - length ds) 0x30 @ ds"

definition format_04d :: "int \<Rightarrow> pystr" where
  "format_04d n =
     (if n < 0 then 0x2D # zfill 3 (digits (nat (- n))) else zfill 4 (digits (nat n)))"

definition capture_name :: "int \<Rightarrow> pystr" where
  "capture_name n = str ''capture_'' @ format_04d n @ str ''.png''"

record capture_result =
  cap_text :: pystr
  cap_ansi :: pystr
  cap_image_path :: path

definition capture ::
  "env \<Rightarrow> session \<times> trace \<Rightarrow> (py_exception + capture_result) \<times> (session \<times> trace)" where
  "capture e =
     seq (read_output_default e)
       (\<lambda>_ (s, tr).
          (let text_lines = map rstrip (display e (fed s));
               txt = join_lines text_lines;
               ansi = txt;
               s1 = s\<lparr>capture_count := capture_count s + 1\<rparr>;
               image_path = session_dir s1 @ [capture_name (capture_count s1)]
           in seq (on_trace (render_image e image_path))
                (\<lambda>_. ret \<lparr>cap_text = txt, cap_ansi = ansi, cap_image_path = image_path\<rparr>)
                (s1, tr)))"

subsubsection \<open>\<open>close\<close>\<close>

text \<open>
  The \<open>for _ in range(10)\<close> loop with its \<open>else\<close>: the value says whether the range was
  exhausted, that is, whether the \<open>else\<close> clause runs; a failed probe breaks out.
\<close>

primrec poll_loop :: "env \<Rightarrow> session \<Rightarrow> nat \<Rightarrow> trace \<Rightarrow> (py_exception + bool) \<times> trace" where
  "poll_loop e s 0 = ret True"
| "poll_loop e s (Suc n) =
     seq (except_OSError
            (seq (os_kill e (pid s) SIG0) (\<lambda>_. seq (time_sleep 100) (\<lambda>_. ret True)))
            (ret False))
       (\<lambda>go_on. if go_on then poll_loop e s n else ret False)"

definition close :: "env \<Rightarrow> session \<Rightarrow> trace \<Rightarrow> (py_exception + unit) \<times> trace" where
  "close e s =
     seq (except_OSError (os_close e (fd s)) (ret ()))
       (\<lambda>_. seq (is_alive e s)
          (\<lambda>alive.
             if alive then
               except_OSError
                 (seq (os_kill e (pid s) SIGTERM)
                    (\<lambda>_. seq (poll_loop e s 10)
                       (\<lambda>exhausted. if exhausted then os_kill e (pid s) SIGKILL else ret ())))
                 (ret ())
             else ret ()))"

subsection \<open>\<open>SessionManager\<close>\<close>

text \<open>
  \<open>_sessions\<close> is a dictionary: a list of pairs with distinct keys, in insertion order.
\<close>

record manager =
  base_dir :: path
  sessions :: "(pystr \<times> session) list"

definition get :: "manager \<Rightarrow> pystr \<Rightarrow> session option" where
  "get m sid = map_of (sessions m) sid"

text \<open>\<open>d.pop(key, None)\<close>: the value or \<open>None\<close>, and the dictionary without the key.\<close>

definition dict_pop :: "('k \<times> 'v) list \<Rightarrow> 'k \<Rightarrow> 'v option \<times> ('k \<times> 'v) list" where
  "dict_pop d k = (map_of d k, filter (\<lambda>kv. fst kv \<noteq> k) d)"

text \<open>
  \<open>SessionManager.close\<close>. A \<open>TUISession\<close> defines neither \<open>__bool__\<close> nor \<open>__len__\<close>, so
  \<open>if session:\<close> asks whether the entry was there.
\<close>

definition manager_close ::
  "env \<Rightarrow> pystr \<Rightarrow> manager \<times> trace \<Rightarrow> (py_exception + bool) \<times> (manager \<times> trace)" where
  "manager_close e sid =
     (\<lambda>(m, tr).
        (case dict_pop (sessions m) sid of
           (None, d) \<Rightarrow> (Inr False, (m\<lparr>sessions := d\<rparr>, tr))
         | (Some s, d) \<Rightarrow>
             seq (on_trace (close e s)) (\<lambda>_. ret True) (m\<lparr>sessions := d\<rparr>, tr)))"

definition list_sessions :: "manager \<Rightarrow> session list" where
  "list_sessions m = map snd (sessions m)"

text \<open>
  \<open>cleanup_dead\<close>: the comprehension probes every session in the order of the dictionary,
  then the dead ones are closed one after the other.
\<close>

fun scan_dead ::
  "env \<Rightarrow> (pystr \<times> session) list \<Rightarrow> trace \<Rightarrow> (py_exception + pystr list) \<times> trace" where
  "scan_dead e [] = ret []"
| "scan_dead e ((sid, s) # items) =
     seq (is_alive e s)
       (\<lambda>alive. seq (scan_dead e items)
          (\<lambda>dead. ret (if \<not> alive then sid # dead else dead)))"

fun close_each ::
  "env \<Rightarrow> pystr list \<Rightarrow> manager \<times> trace \<Rightarrow> (py_exception + unit) \<times> (manager \<times> trace)" where
  "close_each e [] = ret ()"
| "close_each e (sid # dead) = seq (manager_close e sid) (\<lambda>_. close_each e dead)"

definition cleanup_dead ::
  "env \<Rightarrow> manager \<times> trace \<Rightarrow> (py_exception + int) \<times> (manager \<times> trace)" where
  "cleanup_dead e =
     (\<lambda>(m, tr).
        seq (on_trace (scan_dead e (sessions m)))
          (\<lambda>dead. seq (close_each e dead) (\<lambda>_. ret (int (length dead)))) (m, tr))"

section \<open>Vocabulary of the properties\<close>



definition uncased :: "codepoint \<Rightarrow> pystr" where
  "uncased c = [c]"

text \<open>
  \<open>no_token_across s1 s2\<close>: no brace-delimited token of \<open>s1 + s2\<close> spans the boundary
  between the two strings, that is, every match of the pattern in the concatenation ends
  within \<open>s1\<close> or starts within \<open>s2\<close>. \<open>shift\<close> moves a match by an offset.
\<close>

definition shift :: "nat \<Rightarrow> re_match \<Rightarrow> re_match" where
  "shift i m = Match (m_start m + i) (m_end m + i) (group1 m)"

definition no_token_across :: "pystr \<Rightarrow> pystr \<Rightarrow> bool" where
  "no_token_across s1 s2 \<longleftrightarrow>
     list_all (\<lambda>m. m_end m \<le> length s1 \<or> length s1 \<le> m_start m) (finditer (s1 @ s2))"

text \<open>
  \<open>polls p k\<close> is the trace of \<open>k\<close> liveness polls of process \<open>p\<close>, each followed by its
  100 ms sleep. \<open>close_times e s n\<close> calls \<open>close\<close> \<open>n\<close> times in a row on the same session.
  \<open>freed e f hist calls\<close> counts the calls of \<open>calls\<close>, made after the history \<open>hist\<close>, that
  closed descriptor \<open>f\<close> with success. \<open>quiet_env\<close> is an environment in which every call
  succeeds, except closing a descriptor a second time, nothing is there to read, and the
  process ignores the signals; \<open>demo_session\<close> is a session as \<open>spawn\<close> makes them.
\<close>

definition polls :: "int \<Rightarrow> nat \<Rightarrow> trace" where
  "polls p k = concat (replicate k [Kill p SIG0, Sleep 100])"

primrec close_times :: "env \<Rightarrow> session \<Rightarrow> nat \<Rightarrow> trace \<Rightarrow> (py_exception + unit) \<times> trace" where
  "close_times e s 0 = ret ()"
| "close_times e s (Suc n) = seq (close e s) (\<lambda>_. close_times e s n)"

fun freed :: "env \<Rightarrow> int \<Rightarrow> trace \<Rightarrow> trace \<Rightarrow> nat" where
  "freed e f hist [] = 0"
| "freed e f hist (c # cs) =
     (if c = Close f \<and> close_result e hist f = None then 1 else 0) + freed e f (hist @ [c]) cs"

definition quiet_env :: env where
  "quiet_env =
     \<lparr>close_result = (\<lambda>tr f. if Close f \<in> set tr then Some EBADF else None),
      kill_result = (\<lambda>tr p sg. None),
      select_result = (\<lambda>tr f. Inr False),
      read_result = (\<lambda>tr f. Inr []),
      write_result = (\<lambda>tr f data. None),
      render_result = (\<lambda>tr p. None),
      display = (\<lambda>chunks. [])\<rparr>"

definition demo_session :: session where
  "demo_session =
     TUISession (str ''ab12cd34'') (str ''top'') 24 80 4242 7 [str ''tmp'', str ''ab12cd34''] 0"

text \<open>
  \<open>chatty_env\<close> is \<open>quiet_env\<close> with a child process that never stops writing: the
  descriptor is always ready and 10000 bytes are there at every read. In
  \<open>render_fails_once\<close> the first rendering raises and the later ones succeed.
  \<open>captures e n\<close> calls \<open>capture\<close> \<open>n\<close> times in a row, whatever each call gives, and
  collects the results.
\<close>

definition chatty_env :: env where
  "chatty_env =
     quiet_env\<lparr>select_result := \<lambda>tr f. Inr True,
               read_result := \<lambda>tr f. Inr (replicate 10000 0x41)\<rparr>"

primrec captures ::
  "env \<Rightarrow> nat \<Rightarrow> session \<times> trace
     \<Rightarrow> (py_exception + capture_result) list \<times> (session \<times> trace)" where
  "captures e 0 st = ([], st)"
| "captures e (Suc n) st =
     (case capture e st of (r, st1) \<Rightarrow>
        (case captures e n st1 of (rs, st2) \<Rightarrow> (r # rs, st2)))"

definition render_fails_once :: env where
  "render_fails_once =
     quiet_env\<lparr>render_result :=
       \<lambda>tr p. if list_ex (\<lambda>c. case c of Render q \<Rightarrow> True | _ \<Rightarrow> False) tr then None
              else Some RenderError\<rparr>"

text \<open>
  For the sweep: \<open>probes items\<close> is the trace of one liveness probe per tracked session, in
  the order of the dictionary; \<open>found_dead e items tr\<close> are the entries whose \<open>is_alive\<close>
  answers \<open>False\<close> when the sessions are probed one after the other from the trace \<open>tr\<close>;
  \<open>close_all e dead tr\<close> is the trace after \<open>close\<close> has run on each session of \<open>dead\<close>. In
  \<open>one_dead_env\<close> process 99 is gone and every other process lives; \<open>demo_manager\<close> tracks
  \<open>demo_session\<close> and \<open>dead_session\<close>, whose process is 99.
\<close>

definition probes :: "(pystr \<times> session) list \<Rightarrow> trace" where
  "probes items = map (\<lambda>kv. Kill (pid (snd kv)) SIG0) items"

fun found_dead :: "env \<Rightarrow> (pystr \<times> session) list \<Rightarrow> trace \<Rightarrow> (pystr \<times> session) list" where
  "found_dead e [] tr = []"
| "found_dead e (kv # items) tr =
     (if fst (is_alive e (snd kv) tr) = Inr False then [kv] else [])
       @ found_dead e items (snd (is_alive e (snd kv) tr))"

definition close_all :: "env \<Rightarrow> (pystr \<times> session) list \<Rightarrow> trace \<Rightarrow> trace" where
  "close_all e dead tr = foldl (\<lambda>t kv. snd (close e (snd kv) t)) tr dead"

definition one_dead_env :: env where
  "one_dead_env = quiet_env\<lparr>kill_result := \<lambda>tr p sg. if p = 99 then Some ESRCH else None\<rparr>"

definition dead_session :: session where
  "dead_session =
     TUISession (str ''ef56ab78'') (str ''true'') 24 80 99 8 [str ''tmp'', str ''ef56ab78''] 0"

definition demo_manager :: manager where
  "demo_manager =
     \<lparr>base_dir = [str ''tmp''],
      sessions = [(str ''ab12cd34'', demo_session), (str ''ef56ab78'', dead_session)]\<rparr>"

text \<open>
  Two more environments. In \<open>reissued_env\<close> process 99 is gone and the system closes a
  descriptor number whenever it is asked to: a number closed before has been handed out
  again in between, as happens when another file is opened. In \<open>eperm_env\<close> process 99 is
  running but may not be signalled by the caller: every \<open>os.kill\<close> on it, the probe
  included, answers \<open>EPERM\<close>.
\<close>

definition reissued_env :: env where
  "reissued_env = one_dead_env\<lparr>close_result := \<lambda>tr f. None\<rparr>"

definition eperm_env :: env where
  "eperm_env = quiet_env\<lparr>kill_result := \<lambda>tr p sg. if p = 99 then Some EPERM else None\<rparr>"

section \<open>The encoder, match by match\<close>

text \<open>
  Devices of the proofs below, not code of the repository: the first match of the pattern in
  a string (the text before it, its group, the text after it), the bytes one match
  contributes, the tail of \<open>parse_keys\<close> after its loop, and the loop resumed in the
  middle of the input.
\<close>

fun first_match :: "pystr \<Rightarrow> (pystr \<times> pystr \<times> pystr) option" where
  "first_match [] = None"
| "first_match (c # t) =
     (case match_at (c # t) of
        Some (name, rest) \<Rightarrow> Some ([], name, rest)
      | None \<Rightarrow>
          (case first_match t of
             None \<Rightarrow> None
           | Some (p, name, rest) \<Rightarrow> Some (c # p, name, rest)))"

definition emit :: "(codepoint \<Rightarrow> pystr) \<Rightarrow> pystr \<Rightarrow> py_exception + bytes" where
  "emit U name =
     (case special_key (py_upper U name) of
        Some k \<Rightarrow> Inr k
      | None \<Rightarrow> utf8_encode ([LBRACE] @ name @ [RBRACE]))"

definition finish :: "pystr \<Rightarrow> bytes \<times> nat \<Rightarrow> py_exception + bytes" where
  "finish s st =
     (case st of (result, pos) \<Rightarrow>
        if pos < length s then bnd (utf8_encode (drop pos s)) (\<lambda>b. Inr (result @ b))
        else Inr result)"

definition loop_from :: "(codepoint \<Rightarrow> pystr) \<Rightarrow> pystr \<Rightarrow> bytes \<Rightarrow> pystr \<Rightarrow> py_exception + bytes" where
  "loop_from U pre res t =
     bnd (parse_loop U (pre @ t) (finditer_from (length pre) t) (res, length pre))
         (finish (pre @ t))"

lemma bnd_simps [simp]:
  "bnd (Inl e) f = Inl e" "bnd (Inr v) f = f v"
  by (simp_all add: bnd_def)

lemma bnd_assoc: "bnd (bnd x f) g = bnd x (\<lambda>v. bnd (f v) g)"
  by (cases x) simp_all

lemma bnd_Inr_id [simp]: "bnd x Inr = x"
  by (cases x) simp_all

lemma match_at_decomp:
  assumes "match_at s = Some (name, rest)"
  shows "s = LBRACE # name @ RBRACE # rest \<and> name \<noteq> [] \<and> RBRACE \<notin> set name"
proof (cases s)
  case Nil
  with assms show ?thesis by simp
next
  case (Cons c t)
  let ?P = "\<lambda>x. x \<noteq> RBRACE"
  from assms Cons obtain y where c: "c = LBRACE" and d: "dropWhile ?P t = y # rest"
    and n: "name = takeWhile ?P t" and ne: "name \<noteq> []"
    by (auto split: if_splits list.splits)
  have "y = hd (dropWhile ?P t)" using d by simp
  moreover have "\<not> ?P (hd (dropWhile ?P t))"
    using d hd_dropWhile [of ?P t] by force
  ultimately have y: "y = RBRACE" by simp
  have "t = takeWhile ?P t @ dropWhile ?P t" by simp
  then have "t = name @ RBRACE # rest" using d n y by simp
  moreover have "RBRACE \<notin> set name" using n by (auto dest: set_takeWhileD)
  ultimately show ?thesis using Cons c ne by simp
qed

lemma match_at_intro:
  assumes "name \<noteq> []" and "RBRACE \<notin> set name"
  shows "match_at (LBRACE # name @ RBRACE # rest) = Some (name, rest)"
proof -
  let ?P = "\<lambda>x. x \<noteq> RBRACE"
  have a: "\<forall>x\<in>set name. ?P x" using assms(2) by auto
  have t: "takeWhile ?P (name @ RBRACE # rest) = name"
    using a by (simp add: takeWhile_tail)
  have d: "dropWhile ?P (name @ RBRACE # rest) = RBRACE # rest"
    using a by simp
  show ?thesis using assms(1) by (simp add: t d)
qed

lemma first_match_Cons_None:
  "match_at (c # t) = None \<Longrightarrow>
     first_match (c # t) =
       (case first_match t of None \<Rightarrow> None | Some (p, name, rest) \<Rightarrow> Some (c # p, name, rest))"
  by (simp del: match_at.simps)

lemma first_match_Cons_Some:
  "match_at (c # t) = Some (name, rest) \<Longrightarrow> first_match (c # t) = Some ([], name, rest)"
  by (simp del: match_at.simps)

lemma first_match_decomp:
  "first_match s = Some (p, name, rest) \<Longrightarrow>
     s = p @ LBRACE # name @ RBRACE # rest \<and> name \<noteq> [] \<and> RBRACE \<notin> set name"
proof (induction s arbitrary: p)
  case Nil
  then show ?case by simp
next
  case (Cons c t)
  show ?case
  proof (cases "match_at (c # t)")
    case (Some a)
    obtain n r where a: "a = (n, r)" by (cases a)
    have "first_match (c # t) = Some ([], n, r)"
      using Some a first_match_Cons_Some by simp
    with Cons.prems have "p = []" "n = name" "r = rest" by simp_all
    with Some a have "match_at (c # t) = Some (name, rest)" by simp
    from match_at_decomp [OF this] \<open>p = []\<close> show ?thesis by simp
  next
    case None
    from first_match_Cons_None [OF None] Cons.prems
    obtain p' where p: "p = c # p'" and f: "first_match t = Some (p', name, rest)"
      by (cases "first_match t") auto
    from Cons.IH [OF f] p show ?thesis by simp
  qed
qed

lemma finditer_from_Cons_None:
  "match_at (c # t) = None \<Longrightarrow> finditer_from i (c # t) = finditer_from (Suc i) t"
  by (simp del: match_at.simps)

lemma finditer_from_Cons_Some:
  "match_at (c # t) = Some (name, rest) \<Longrightarrow>
     finditer_from i (c # t) =
       Match i (i + length name + 2) name # finditer_from (i + length name + 2) rest"
  by (simp del: match_at.simps)

lemma finditer_from_None:
  "first_match s = None \<Longrightarrow> finditer_from i s = []"
proof (induction s arbitrary: i)
  case Nil
  show ?case by simp
next
  case (Cons c t)
  show ?case
  proof (cases "match_at (c # t)")
    case None
    with Cons.prems have "first_match t = None"
      by (cases "first_match t") (auto simp: first_match_Cons_None)
    then have "finditer_from (Suc i) t = []" by (rule Cons.IH)
    then show ?thesis by (simp only: finditer_from_Cons_None [OF None])
  next
    case (Some a)
    obtain n r where "a = (n, r)" by (cases a)
    with Some Cons.prems show ?thesis by (simp add: first_match_Cons_Some del: first_match.simps match_at.simps)
  qed
qed

lemma finditer_from_Some:
  "first_match s = Some (p, name, rest) \<Longrightarrow>
     finditer_from i s =
       Match (i + length p) (i + length p + length name + 2) name
         # finditer_from (i + length p + length name + 2) rest"
proof (induction s arbitrary: i p)
  case Nil
  then show ?case by simp
next
  case (Cons c t)
  show ?case
  proof (cases "match_at (c # t)")
    case None
    from first_match_Cons_None [OF None] Cons.prems
    obtain p' where p: "p = c # p'" and f: "first_match t = Some (p', name, rest)"
      by (cases "first_match t") auto
    have "finditer_from i (c # t) = finditer_from (Suc i) t"
      by (rule finditer_from_Cons_None [OF None])
    also have "\<dots> = Match (Suc i + length p') (Suc i + length p' + length name + 2) name
         # finditer_from (Suc i + length p' + length name + 2) rest"
      by (rule Cons.IH [OF f])
    finally show ?thesis using p by simp
  next
    case (Some a)
    obtain n r where a: "a = (n, r)" by (cases a)
    have "first_match (c # t) = Some ([], n, r)"
      using Some a first_match_Cons_Some by simp
    with Cons.prems have e: "p = []" "n = name" "r = rest" by simp_all
    with Some a have "match_at (c # t) = Some (name, rest)" by simp
    from finditer_from_Cons_Some [OF this] e show ?thesis by simp
  qed
qed

declare match_at.simps [simp del] first_match.simps [simp del] finditer_from.simps [simp del]

lemma utf8_encode_append:
  "utf8_encode (a @ b) = bnd (utf8_encode a) (\<lambda>x. bnd (utf8_encode b) (\<lambda>y. Inr (x @ y)))"
proof (induction a)
  case Nil
  show ?case by simp
next
  case (Cons c a)
  show ?case
  proof (cases "encode_cp c")
    case (Inl e)
    then show ?thesis by simp
  next
    case (Inr x)
    show ?thesis
    proof (cases "utf8_encode a")
      case (Inl e)
      with Inr Cons.IH show ?thesis by simp
    next
      case ra: (Inr y)
      show ?thesis
      proof (cases "utf8_encode b")
        case (Inl e)
        with Inr ra Cons.IH show ?thesis by simp
      next
        case rb: (Inr z)
        with Inr ra Cons.IH show ?thesis by simp
      qed
    qed
  qed
qed

lemma slice_mid: "slice (pre @ p @ rest) (length pre) (length pre + length p) = p"
  by (simp add: slice_def)

lemma parse_step_at:
  "parse_step U (pre @ p @ LBRACE # name @ RBRACE # rest) (res, length pre)
     (Match (length pre + length p) e name) =
   bnd (utf8_encode p) (\<lambda>a. bnd (emit U name) (\<lambda>b. Inr (res @ a @ b, e)))"
proof (cases "p = []")
  case True
  then show ?thesis
    by (cases "special_key (py_upper U name)";
        cases "utf8_encode (LBRACE # name @ [RBRACE])")
       (simp_all add: parse_step_def emit_def)
next
  case False
  have sl: "slice (pre @ p @ LBRACE # name @ RBRACE # rest) (length pre) (length pre + length p) = p"
    by (rule slice_mid)
  from False show ?thesis
    by (cases "utf8_encode p"; cases "special_key (py_upper U name)";
        cases "utf8_encode (LBRACE # name @ [RBRACE])")
       (simp_all add: parse_step_def emit_def sl)
qed

lemma parse_keys_loop_from: "parse_keys U s = loop_from U [] [] s"
proof -
  have "finish s =
          (\<lambda>(result, pos).
             if pos < length s then bnd (utf8_encode (drop pos s)) (\<lambda>b. Inr (result @ b))
             else Inr result)"
    by (auto simp: finish_def fun_eq_iff)
  then show ?thesis by (simp add: parse_keys_def loop_from_def finditer_def)
qed

lemma loop_from_None:
  assumes "first_match t = None"
  shows "loop_from U pre res t = bnd (utf8_encode t) (\<lambda>a. Inr (res @ a))"
proof (cases "t = []")
  case True
  then show ?thesis by (simp add: loop_from_def finditer_from.simps(1) finish_def)
next
  case False
  then show ?thesis by (simp add: loop_from_def finditer_from_None [OF assms] finish_def)
qed

lemma loop_from_Some:
  assumes "first_match t = Some (p, name, rest)"
  shows "loop_from U pre res t =
           bnd (utf8_encode p) (\<lambda>a. bnd (emit U name) (\<lambda>b.
             loop_from U (pre @ p @ LBRACE # name @ [RBRACE]) (res @ a @ b) rest))"
proof -
  from first_match_decomp [OF assms]
  have t: "t = p @ LBRACE # name @ RBRACE # rest" by simp
  let ?e = "length pre + length p + length name + 2"
  have len: "length (pre @ p @ LBRACE # name @ [RBRACE]) = ?e" by simp
  have app: "(pre @ p @ LBRACE # name @ [RBRACE]) @ rest = pre @ t" using t by simp
  have "loop_from U pre res t =
          bnd (bnd (parse_step U (pre @ t) (res, length pre) (Match (length pre + length p) ?e name))
                   (parse_loop U (pre @ t) (finditer_from ?e rest)))
              (finish (pre @ t))"
    by (simp add: loop_from_def finditer_from_Some [OF assms])
  also have "parse_step U (pre @ t) (res, length pre) (Match (length pre + length p) ?e name) =
      bnd (utf8_encode p) (\<lambda>a. bnd (emit U name) (\<lambda>b. Inr (res @ a @ b, ?e)))"
    unfolding t by (rule parse_step_at)
  finally show ?thesis
    unfolding loop_from_def len app by (simp add: bnd_assoc)
qed

lemma loop_from_parse_keys:
  "loop_from U pre res t = bnd (loop_from U [] [] t) (\<lambda>b. Inr (res @ b))"
proof (induction "length t" arbitrary: t pre res rule: less_induct)
  case less
  show ?case
  proof (cases "first_match t")
    case None
    show ?thesis by (simp add: loop_from_None [OF None] bnd_assoc)
  next
    case (Some a)
    obtain p name rest where a: "a = (p, name, rest)" by (cases a)
    with Some have f: "first_match t = Some (p, name, rest)" by simp
    from first_match_decomp [OF f] have "length rest < length t" by simp
    note IH = less [OF this]
    have "loop_from U pre res t =
            bnd (utf8_encode p) (\<lambda>a. bnd (emit U name) (\<lambda>b.
              bnd (loop_from U [] [] rest) (\<lambda>c. Inr ((res @ a @ b) @ c))))"
      by (simp only: loop_from_Some [OF f] IH [of "pre @ p @ LBRACE # name @ [RBRACE]"])
    moreover have "loop_from U [] [] t =
            bnd (utf8_encode p) (\<lambda>a. bnd (emit U name) (\<lambda>b.
              bnd (loop_from U [] [] rest) (\<lambda>c. Inr ((a @ b) @ c))))"
      by (simp only: loop_from_Some [OF f, of U "[]" "[]"] append_Nil
            IH [of "p @ LBRACE # name @ [RBRACE]"])
    ultimately show ?thesis by (simp add: bnd_assoc)
  qed
qed

lemma parse_keys_no_match:
  "first_match s = None \<Longrightarrow> parse_keys U s = utf8_encode s"
  by (simp add: parse_keys_loop_from loop_from_None)

lemma parse_keys_first:
  assumes "first_match s = Some (p, name, rest)"
  shows "parse_keys U s =
           bnd (utf8_encode p) (\<lambda>a. bnd (emit U name) (\<lambda>b.
             bnd (parse_keys U rest) (\<lambda>c. Inr (a @ b @ c))))"
proof -
  have "loop_from U (p @ LBRACE # name @ [RBRACE]) (a @ b) rest =
          bnd (parse_keys U rest) (\<lambda>c. Inr (a @ b @ c))" for a b
    using loop_from_parse_keys [of U "p @ LBRACE # name @ [RBRACE]" "a @ b" rest]
    by (simp add: parse_keys_loop_from)
  then show ?thesis
    using loop_from_Some [OF assms, of U "[]" "[]"] by (simp add: parse_keys_loop_from)
qed


lemma SPECIAL_KEYS_chars:
  "\<forall>(k, v) \<in> set SPECIAL_KEYS. k \<noteq> [] \<and> (\<forall>c \<in> set k. c < 0x60)"
  by (simp add: SPECIAL_KEYS_def str_def BACKSLASH_def)


lemma first_match_token:
  assumes "name \<noteq> []" and "RBRACE \<notin> set name"
  shows "first_match (LBRACE # name @ RBRACE # rest) = Some ([], name, rest)"
  using match_at_intro [OF assms] by (rule first_match_Cons_Some)

lemma parse_keys_Nil: "parse_keys U [] = Inr []"
  by (simp add: parse_keys_no_match first_match.simps)


lemma shift_shift: "shift i (shift k m) = shift (k + i) m"
  by (simp add: shift_def add.assoc)

lemma finditer_from_shift:
  "finditer_from i s = map (shift i) (finditer_from 0 s)"
proof (induction "length s" arbitrary: s i rule: less_induct)
  case less
  show ?case
  proof (cases "first_match s")
    case None
    then show ?thesis by (simp add: finditer_from_None)
  next
    case (Some a)
    obtain p name rest where "a = (p, name, rest)" by (cases a)
    with Some have f: "first_match s = Some (p, name, rest)" by simp
    from first_match_decomp [OF f] have "length rest < length s" by simp
    note IH = less [OF this]
    let ?k = "length p + length name + 2"
    have "finditer_from i s =
            Match (i + length p) (i + ?k) name # map (shift (i + ?k)) (finditer_from 0 rest)"
      using finditer_from_Some [OF f, of i] IH [of "i + ?k"] by (simp add: add.assoc)
    moreover have "finditer_from 0 s =
            Match (length p) ?k name # map (shift ?k) (finditer_from 0 rest)"
      using finditer_from_Some [OF f, of 0] IH [of ?k] by simp
    ultimately show ?thesis
      by (simp add: shift_def add.commute add.left_commute)
  qed
qed

lemma finditer_None: "first_match s = None \<Longrightarrow> finditer s = []"
  by (simp add: finditer_def finditer_from_None)

lemma finditer_Some:
  assumes "first_match s = Some (p, name, rest)"
  shows "finditer s =
           Match (length p) (length p + length name + 2) name
             # map (shift (length p + length name + 2)) (finditer rest)"
  using finditer_from_Some [OF assms, of 0]
    finditer_from_shift [of "length p + length name + 2" rest]
  by (simp add: finditer_def)

lemma finditer_Nil_iff: "finditer s = [] \<longleftrightarrow> first_match s = None"
proof (cases "first_match s")
  case None
  then show ?thesis by (simp add: finditer_None)
next
  case (Some a)
  obtain p name rest where "a = (p, name, rest)" by (cases a)
  with Some show ?thesis by (simp add: finditer_Some)
qed

lemma encode_cp_scalar: "scalar_value c \<Longrightarrow> \<exists>b. encode_cp c = Inr b"
  by (auto simp: scalar_value_def encode_cp_def)

lemma utf8_encode_scalar: "list_all scalar_value s \<Longrightarrow> \<exists>b. utf8_encode s = Inr b"
proof (induction s)
  case Nil
  show ?case by simp
next
  case (Cons c s)
  then obtain b bs where "encode_cp c = Inr b" "utf8_encode s = Inr bs"
    using encode_cp_scalar by force
  then show ?case by simp
qed

lemma match_at_not_lbrace: "c \<noteq> LBRACE \<Longrightarrow> match_at (c # t) = None"
  by (simp add: match_at.simps)

lemma first_match_after_text:
  assumes "name \<noteq> []" and "RBRACE \<notin> set name" and "LBRACE \<notin> set a"
  shows "first_match (a @ LBRACE # name @ RBRACE # rest) = Some (a, name, rest)"
  using assms(3)
proof (induction a)
  case Nil
  show ?case using first_match_token [OF assms(1,2)] by simp
next
  case (Cons c a)
  then have "match_at (c # a @ LBRACE # name @ RBRACE # rest) = None"
    by (simp add: match_at_not_lbrace)
  from first_match_Cons_None [OF this] Cons show ?case by simp
qed

lemma first_match_no_lbrace: "LBRACE \<notin> set s \<Longrightarrow> first_match s = None"
proof (induction s)
  case Nil
  show ?case by (simp add: first_match.simps)
next
  case (Cons c s)
  then have "match_at (c # s) = None" by (simp add: match_at_not_lbrace)
  from first_match_Cons_None [OF this] Cons show ?case by simp
qed

lemma first_match_no_rbrace: "RBRACE \<notin> set s \<Longrightarrow> first_match s = None"
proof (cases "first_match s")
  case None
  then show ?thesis by simp
next
  case (Some a)
  assume r: "RBRACE \<notin> set s"
  obtain p name rest where "a = (p, name, rest)" by (cases a)
  with Some first_match_decomp have "s = p @ LBRACE # name @ RBRACE # rest" by blast
  then have "RBRACE \<in> set s" by simp
  with r show ?thesis by simp
qed

lemma emit_scalar:
  assumes "list_all scalar_value name"
  shows "\<exists>b. emit U name = Inr b"
proof (cases "special_key (py_upper U name)")
  case None
  have "list_all scalar_value ([LBRACE] @ name @ [RBRACE])"
    using assms by (simp add: scalar_value_def LBRACE_def RBRACE_def)
  from utf8_encode_scalar [OF this] None show ?thesis by (simp add: emit_def)
next
  case (Some k)
  then show ?thesis by (simp add: emit_def)
qed

lemma parse_keys_scalar:
  "list_all scalar_value s \<Longrightarrow> \<exists>b. parse_keys U s = Inr b"
proof (induction "length s" arbitrary: s rule: less_induct)
  case less
  show ?case
  proof (cases "first_match s")
    case None
    with utf8_encode_scalar [OF less.prems] show ?thesis by (simp add: parse_keys_no_match)
  next
    case (Some a)
    obtain p name rest where "a = (p, name, rest)" by (cases a)
    with Some have f: "first_match s = Some (p, name, rest)" by simp
    from first_match_decomp [OF f]
    have s: "s = p @ LBRACE # name @ RBRACE # rest" by simp
    with less.prems have "list_all scalar_value p" "list_all scalar_value name"
      "list_all scalar_value rest" by simp_all
    moreover have "length rest < length s" using s by simp
    ultimately obtain x y z where "utf8_encode p = Inr x" "emit U name = Inr y"
      "parse_keys U rest = Inr z"
      using utf8_encode_scalar emit_scalar less.hyps by metis
    then show ?thesis by (simp add: parse_keys_first [OF f])
  qed
qed

lemma parse_keys_all_unknown:
  "\<forall>m \<in> set (finditer s). special_key (py_upper U (group1 m)) = None \<Longrightarrow>
     parse_keys U s = utf8_encode s"
proof (induction "length s" arbitrary: s rule: less_induct)
  case less
  show ?case
  proof (cases "first_match s")
    case None
    then show ?thesis by (simp add: parse_keys_no_match)
  next
    case (Some a)
    obtain p name rest where "a = (p, name, rest)" by (cases a)
    with Some have f: "first_match s = Some (p, name, rest)" by simp
    from first_match_decomp [OF f]
    have s: "s = p @ LBRACE # name @ RBRACE # rest" by simp
    have l: "length rest < length s" using s by simp
    from less.prems finditer_Some [OF f]
    have n: "special_key (py_upper U name) = None"
      and r: "\<forall>m \<in> set (finditer rest). special_key (py_upper U (group1 m)) = None"
      by (simp_all add: shift_def)
    have e: "emit U name = utf8_encode ([LBRACE] @ name @ [RBRACE])"
      using n by (simp add: emit_def)
    have "parse_keys U s =
            bnd (utf8_encode p) (\<lambda>a. bnd (utf8_encode ([LBRACE] @ name @ [RBRACE])) (\<lambda>b.
              bnd (utf8_encode rest) (\<lambda>c. Inr (a @ b @ c))))"
      by (simp only: parse_keys_first [OF f] e less.hyps [OF l r])
    also have "\<dots> = utf8_encode (p @ ([LBRACE] @ name @ [RBRACE]) @ rest)"
      by (simp only: utf8_encode_append [of p] utf8_encode_append [of "[LBRACE] @ name @ [RBRACE]" rest])
         (simp add: bnd_assoc)
    finally show ?thesis using s by simp
  qed
qed

lemma match_at_append:
  assumes "match_at x = Some (name, rest)"
  shows "match_at (x @ b) = Some (name, rest @ b)"
proof -
  from match_at_decomp [OF assms]
  have x: "x = LBRACE # name @ RBRACE # rest" and n: "name \<noteq> []" "RBRACE \<notin> set name"
    by simp_all
  from match_at_intro [OF n, of "rest @ b"] x show ?thesis by simp
qed

lemma match_at_append_None:
  assumes "match_at (c # t) = None" and "RBRACE \<in> set t"
  shows "match_at (c # t @ b) = None"
proof (cases "c = LBRACE")
  case False
  then show ?thesis by (simp add: match_at_not_lbrace)
next
  case True
  let ?P = "\<lambda>x. x \<noteq> RBRACE"
  from assms(2) have ex: "\<exists>x\<in>set t. \<not> ?P x" by auto
  then have d: "dropWhile ?P t \<noteq> []" by (simp add: dropWhile_eq_Nil_conv)
  then obtain y r where yr: "dropWhile ?P t = y # r" by (cases "dropWhile ?P t") auto
  with assms(1) True have tk: "takeWhile ?P t = []"
    by (simp add: match_at.simps split: if_splits)
  from assms(2) have t1: "takeWhile ?P (t @ b) = takeWhile ?P t"
    by (intro takeWhile_append1 [of RBRACE]) auto
  from assms(2) have d1: "dropWhile ?P (t @ b) = dropWhile ?P t @ b"
    by (intro dropWhile_append1 [of RBRACE]) auto
  show ?thesis using True by (simp add: match_at.simps t1 d1 yr tk)
qed

lemma first_match_append_Some:
  "first_match a = Some (p, name, rest) \<Longrightarrow> first_match (a @ b) = Some (p, name, rest @ b)"
proof (induction a arbitrary: p)
  case Nil
  then show ?case by (simp add: first_match.simps)
next
  case (Cons c t)
  show ?case
  proof (cases "match_at (c # t)")
    case (Some x)
    obtain n r where x: "x = (n, r)" by (cases x)
    with Some have m: "match_at (c # t) = Some (n, r)" by simp
    from first_match_Cons_Some [OF m] Cons.prems have e: "p = []" "n = name" "r = rest"
      by simp_all
    from match_at_append [OF m, of b] have "match_at (c # t @ b) = Some (n, r @ b)" by simp
    from first_match_Cons_Some [OF this] e show ?thesis by simp
  next
    case None
    from first_match_Cons_None [OF None] Cons.prems
    obtain p' where p: "p = c # p'" and f: "first_match t = Some (p', name, rest)"
      by (cases "first_match t") auto
    from first_match_decomp [OF f] have "RBRACE \<in> set t" by simp
    from match_at_append_None [OF None this, of b]
    have "match_at (c # t @ b) = None" .
    from first_match_Cons_None [OF this] Cons.IH [OF f] p show ?thesis by simp
  qed
qed

lemma first_match_Cons_NoneD:
  assumes "first_match (c # t) = None"
  shows "first_match t = None"
proof (cases "match_at (c # t)")
  case None
  from first_match_Cons_None [OF None] assms show ?thesis
    by (cases "first_match t") auto
next
  case (Some x)
  obtain n r where "x = (n, r)" by (cases x)
  with Some first_match_Cons_Some [of c t n r] assms show ?thesis by simp
qed

lemma first_match_append_None:
  "first_match (a @ b) = None \<Longrightarrow> first_match b = None"
proof (induction a)
  case Nil
  then show ?case by simp
next
  case (Cons c a)
  then show ?case using first_match_Cons_NoneD [of c "a @ b"] by simp
qed

lemma first_match_inside:
  "first_match (a @ b) = Some (p, name, rest) \<Longrightarrow> length p + length name + 2 \<le> length a \<Longrightarrow>
     \<exists>r. first_match a = Some (p, name, r)"
proof (induction a arbitrary: p)
  case Nil
  then show ?case by simp
next
  case (Cons c t)
  show ?case
  proof (cases "match_at (c # t @ b)")
    case (Some x)
    obtain n r where "x = (n, r)" by (cases x)
    with Some have m: "match_at (c # t @ b) = Some (n, r)" by simp
    from first_match_Cons_Some [OF m] Cons.prems(1) have e: "p = []" "n = name" "r = rest"
      by simp_all
    from match_at_decomp [OF m] e
    have eq: "c # t @ b = LBRACE # name @ RBRACE # rest"
      and nm: "name \<noteq> []" "RBRACE \<notin> set name" by simp_all
    from Cons.prems(2) e have len: "length (LBRACE # name @ [RBRACE]) \<le> length (c # t)" by simp
    from eq have "(c # t) @ b = (LBRACE # name @ [RBRACE]) @ rest" by simp
    with len obtain r' where "c # t = (LBRACE # name @ [RBRACE]) @ r'"
      by (metis append_eq_append_conv_if append_take_drop_id)
    then have "c # t = LBRACE # name @ RBRACE # r'" by simp
    with match_at_intro [OF nm, of r'] have "match_at (c # t) = Some (name, r')" by simp
    from first_match_Cons_Some [OF this] e show ?thesis by simp
  next
    case None
    from first_match_Cons_None [OF None] Cons.prems(1)
    obtain p' where p: "p = c # p'" and f: "first_match (t @ b) = Some (p', name, rest)"
      by (cases "first_match (t @ b)") auto
    from Cons.prems(2) p have "length p' + length name + 2 \<le> length t" by simp
    from Cons.IH [OF f this] obtain r where r: "first_match t = Some (p', name, r)" by blast
    have "match_at (c # t) = None"
    proof (cases "match_at (c # t)")
      case None
      then show ?thesis .
    next
      case (Some x)
      obtain n' r' where "x = (n', r')" by (cases x)
      with Some match_at_append [of "c # t" n' r' b] None show ?thesis by simp
    qed
    from first_match_Cons_None [OF this] r p show ?thesis by simp
  qed
qed

lemma first_match_beyond:
  "first_match (a @ b) = Some (a @ p, name, rest) \<Longrightarrow> first_match b = Some (p, name, rest)"
proof (induction a)
  case Nil
  then show ?case by simp
next
  case (Cons c a)
  show ?case
  proof (cases "match_at (c # a @ b)")
    case (Some x)
    obtain n r where "x = (n, r)" by (cases x)
    with Some first_match_Cons_Some [of c "a @ b" n r] Cons.prems show ?thesis by simp
  next
    case None
    from first_match_Cons_None [OF None] Cons.prems
    have "first_match (a @ b) = Some (a @ p, name, rest)"
      by (cases "first_match (a @ b)") auto
    then show ?thesis by (rule Cons.IH)
  qed
qed

lemma parse_keys_append:
  "no_token_across s1 s2 \<Longrightarrow>
     parse_keys U (s1 @ s2) =
       bnd (parse_keys U s1) (\<lambda>a. bnd (parse_keys U s2) (\<lambda>b. Inr (a @ b)))"
proof (induction "length s1" arbitrary: s1 rule: less_induct)
  case less
  show ?case
  proof (cases "first_match s1")
    case (Some x)
    obtain p name r1 where "x = (p, name, r1)" by (cases x)
    with Some have f1: "first_match s1 = Some (p, name, r1)" by simp
    from first_match_decomp [OF f1]
    have s1: "s1 = p @ LBRACE # name @ RBRACE # r1" by simp
    let ?k = "length p + length name + 2"
    have len: "length s1 = ?k + length r1" using s1 by simp
    have f12: "first_match (s1 @ s2) = Some (p, name, r1 @ s2)"
      by (rule first_match_append_Some [OF f1])
    from less.prems finditer_Some [OF f12]
    have "\<forall>m \<in> set (finditer (r1 @ s2)).
            m_end (shift ?k m) \<le> length s1 \<or> length s1 \<le> m_start (shift ?k m)"
      by (simp add: no_token_across_def list_all_iff)
    then have "no_token_across r1 s2"
      by (simp add: no_token_across_def list_all_iff shift_def len)
    moreover have "length r1 < length s1" using len by simp
    ultimately have IH: "parse_keys U (r1 @ s2) =
        bnd (parse_keys U r1) (\<lambda>a. bnd (parse_keys U s2) (\<lambda>b. Inr (a @ b)))"
      using less.hyps by blast
    show ?thesis
      by (simp only: parse_keys_first [OF f12] parse_keys_first [OF f1] IH)
         (simp add: bnd_assoc)
  next
    case None
    note n1 = this
    show ?thesis
    proof (cases "first_match (s1 @ s2)")
      case None
      from first_match_append_None [OF None] have "first_match s2 = None" .
      with None n1 show ?thesis
        by (simp add: parse_keys_no_match utf8_encode_append)
    next
      case (Some x)
      obtain p name rest where "x = (p, name, rest)" by (cases x)
      with Some have f12: "first_match (s1 @ s2) = Some (p, name, rest)" by simp
      from less.prems finditer_Some [OF f12]
      have "length p + length name + 2 \<le> length s1 \<or> length s1 \<le> length p"
        by (simp add: no_token_across_def)
      moreover have "\<not> length p + length name + 2 \<le> length s1"
        using first_match_inside [OF f12] n1 by auto
      ultimately have le: "length s1 \<le> length p" by simp
      from first_match_decomp [OF f12]
      have "s1 @ s2 = p @ LBRACE # name @ RBRACE # rest" by simp
      with le obtain p' where p: "p = s1 @ p'"
        by (metis append_eq_append_conv_if append_take_drop_id)
      from f12 p have "first_match (s1 @ s2) = Some (s1 @ p', name, rest)" by simp
      from first_match_beyond [OF this] have f2: "first_match s2 = Some (p', name, rest)" .
      show ?thesis
        by (simp only: parse_keys_first [OF f12] parse_keys_first [OF f2]
              parse_keys_no_match [OF n1] p utf8_encode_append [of s1 p'])
           (simp add: bnd_assoc)
    qed
  qed
qed

lemma parse_keys_empty_pair:
  "parse_keys U (LBRACE # RBRACE # s) =
     bnd (parse_keys U s) (\<lambda>b. Inr (0x7B # 0x7D # b))"
proof -
  have m1: "match_at (LBRACE # RBRACE # s) = None" by (simp add: match_at.simps)
  have m2: "match_at (RBRACE # s) = None"
    by (simp add: match_at_not_lbrace LBRACE_def RBRACE_def)
  have u: "utf8_encode (LBRACE # RBRACE # t) = bnd (utf8_encode t) (\<lambda>b. Inr (0x7B # 0x7D # b))" for t
    by (simp add: encode_cp_def LBRACE_def RBRACE_def bnd_assoc)
  show ?thesis
  proof (cases "first_match s")
    case None
    with first_match_Cons_None [OF m2] have "first_match (RBRACE # s) = None" by simp
    with first_match_Cons_None [OF m1] have "first_match (LBRACE # RBRACE # s) = None" by simp
    then have "parse_keys U (LBRACE # RBRACE # s) = utf8_encode (LBRACE # RBRACE # s)"
      by (rule parse_keys_no_match)
    moreover have "parse_keys U s = utf8_encode s"
      using None by (rule parse_keys_no_match)
    ultimately show ?thesis by (simp only: u)
  next
    case (Some x)
    obtain p name rest where "x = (p, name, rest)" by (cases x)
    with Some have f: "first_match s = Some (p, name, rest)" by simp
    with first_match_Cons_None [OF m2]
    have "first_match (RBRACE # s) = Some (RBRACE # p, name, rest)" by simp
    with first_match_Cons_None [OF m1]
    have f2: "first_match (LBRACE # RBRACE # s) = Some (LBRACE # RBRACE # p, name, rest)" by simp
    show ?thesis
      by (simp only: parse_keys_first [OF f2] parse_keys_first [OF f] u) (simp add: bnd_assoc)
  qed
qed

lemma first_match_prefix_None:
  assumes "first_match s = Some (p, name, rest)"
  shows "first_match p = None"
proof (cases "first_match p")
  case None
  then show ?thesis .
next
  case (Some x)
  obtain p' n' r' where "x = (p', n', r')" by (cases x)
  with Some have f: "first_match p = Some (p', n', r')" by simp
  from first_match_decomp [OF f] have len: "length p' < length p" by simp
  from first_match_decomp [OF assms] have s: "s = p @ LBRACE # name @ RBRACE # rest" by simp
  from first_match_append_Some [OF f, of "LBRACE # name @ RBRACE # rest"] s
  have "first_match s = Some (p', n', r' @ LBRACE # name @ RBRACE # rest)" by simp
  with assms have "p' = p" by simp
  with len show ?thesis by simp
qed

lemma first_match_change_rest:
  assumes "first_match s = Some (p, name, rest)"
  shows "first_match (p @ LBRACE # name @ RBRACE # x) = Some (p, name, x)"
proof -
  from first_match_decomp [OF assms] have s: "s = (p @ LBRACE # name @ [RBRACE]) @ rest" by simp
  have "length p + length name + 2 \<le> length (p @ LBRACE # name @ [RBRACE])" by simp
  from first_match_inside [OF assms [unfolded s] this] obtain r
    where f: "first_match (p @ LBRACE # name @ [RBRACE]) = Some (p, name, r)" by blast
  from first_match_decomp [OF f] have "r = []" by simp
  with first_match_append_Some [OF f, of x] show ?thesis by simp
qed

lemma parse_keys_at_match:
  "m \<in> set (finditer s) \<Longrightarrow>
     m_start m < m_end m \<and> m_end m \<le> length s
     \<and> group1 m \<noteq> [] \<and> RBRACE \<notin> set (group1 m)
     \<and> slice s (m_start m) (m_end m) = [LBRACE] @ group1 m @ [RBRACE]
     \<and> parse_keys U s =
         bnd (parse_keys U (take (m_start m) s)) (\<lambda>a. bnd (emit U (group1 m)) (\<lambda>b.
           bnd (parse_keys U (drop (m_end m) s)) (\<lambda>c. Inr (a @ b @ c))))"
proof (induction "length s" arbitrary: s m rule: less_induct)
  case less
  show ?case
  proof (cases "first_match s")
    case None
    with less.prems show ?thesis by (simp add: finditer_None)
  next
    case (Some x)
    obtain p name rest where "x = (p, name, rest)" by (cases x)
    with Some have f: "first_match s = Some (p, name, rest)" by simp
    from first_match_decomp [OF f]
    have s: "s = p @ LBRACE # name @ RBRACE # rest" and nm: "name \<noteq> []" "RBRACE \<notin> set name"
      by simp_all
    let ?k = "length p + length name + 2"
    have dk: "drop ?k s = rest" using s by simp
    from less.prems finditer_Some [OF f]
    consider (here) "m = Match (length p) ?k name"
      | (later) m' where "m' \<in> set (finditer rest)" "m = shift ?k m'"
      by auto
    then show ?thesis
    proof cases
      case here
      have tk: "take (length p) s = p" using s by simp
      have sl: "slice s (length p) ?k = [LBRACE] @ name @ [RBRACE]"
        using s by (simp add: slice_def)
      have pp: "parse_keys U p = utf8_encode p"
        by (rule parse_keys_no_match [OF first_match_prefix_None [OF f]])
      have len: "?k \<le> length s" using s by simp
      have ps: "parse_keys U s =
          bnd (parse_keys U (take (length p) s)) (\<lambda>a. bnd (emit U name) (\<lambda>b.
            bnd (parse_keys U (drop ?k s)) (\<lambda>c. Inr (a @ b @ c))))"
        by (simp only: tk dk pp parse_keys_first [OF f])
      show ?thesis
        using here nm sl len ps by simp
    next
      case (later m')
      have l: "length rest < length s" using s by simp
      from less.hyps [OF l later(1)]
      have a: "m_start m' < m_end m'" and b: "m_end m' \<le> length rest"
        and c: "group1 m' \<noteq> []" "RBRACE \<notin> set (group1 m')"
        and d: "slice rest (m_start m') (m_end m') = [LBRACE] @ group1 m' @ [RBRACE]"
        and e: "parse_keys U rest =
           bnd (parse_keys U (take (m_start m') rest)) (\<lambda>a. bnd (emit U (group1 m')) (\<lambda>b.
             bnd (parse_keys U (drop (m_end m') rest)) (\<lambda>c. Inr (a @ b @ c))))"
        by simp_all
      have st: "m_start m = m_start m' + ?k" and en: "m_end m = m_end m' + ?k"
        and gr: "group1 m = group1 m'"
        using later(2) by (simp_all add: shift_def)
      have dr: "drop (m_end m) s = drop (m_end m') rest"
        unfolding en using dk by (metis add.commute drop_drop)
      have ds: "drop (m_start m) s = drop (m_start m') rest"
        unfolding st using dk by (metis add.commute drop_drop)
      have df: "m_end m - m_start m = m_end m' - m_start m'" using st en by simp
      have sl: "slice s (m_start m) (m_end m) = [LBRACE] @ group1 m @ [RBRACE]"
        using d unfolding slice_def df ds gr .
      have tk: "take (m_start m) s = p @ LBRACE # name @ RBRACE # take (m_start m') rest"
        unfolding st using s by simp
      have pt: "parse_keys U (take (m_start m) s) =
          bnd (utf8_encode p) (\<lambda>a. bnd (emit U name) (\<lambda>b.
            bnd (parse_keys U (take (m_start m') rest)) (\<lambda>c. Inr (a @ b @ c))))"
        unfolding tk by (rule parse_keys_first [OF first_match_change_rest [OF f]])
      have len: "m_end m \<le> length s" using b s en by simp
      have ps: "parse_keys U s =
          bnd (parse_keys U (take (m_start m) s)) (\<lambda>a. bnd (emit U (group1 m)) (\<lambda>b.
            bnd (parse_keys U (drop (m_end m) s)) (\<lambda>c. Inr (a @ b @ c))))"
        by (simp only: parse_keys_first [OF f] e pt dr gr) (simp add: bnd_assoc)
      from a st en have "m_start m < m_end m" by simp
      with len c gr sl ps show ?thesis by simp
    qed
  qed
qed

lemma encode_cp_Inl: "encode_cp c = Inl e \<Longrightarrow> e = UnicodeEncodeError"
  by (auto simp: encode_cp_def split: if_splits)

lemma utf8_encode_Inl: "utf8_encode s = Inl e \<Longrightarrow> e = UnicodeEncodeError"
proof (induction s)
  case Nil
  then show ?case by simp
next
  case (Cons c s)
  show ?case
  proof (cases "encode_cp c")
    case (Inl x)
    with Cons.prems encode_cp_Inl [OF Inl] show ?thesis by simp
  next
    case (Inr b)
    with Cons show ?thesis by (cases "utf8_encode s") simp_all
  qed
qed

lemma encode_cp_not_scalar: "\<not> scalar_value c \<Longrightarrow> encode_cp c = Inl UnicodeEncodeError"
  by (auto simp: scalar_value_def encode_cp_def)

lemma utf8_encode_not_scalar:
  "\<not> list_all scalar_value s \<Longrightarrow> utf8_encode s = Inl UnicodeEncodeError"
proof (induction s)
  case Nil
  then show ?case by simp
next
  case (Cons c s)
  show ?case
  proof (cases "encode_cp c")
    case (Inl e)
    with encode_cp_Inl [OF Inl] show ?thesis by simp
  next
    case (Inr b)
    with encode_cp_not_scalar [of c] have "scalar_value c" by auto
    with Cons have "utf8_encode s = Inl UnicodeEncodeError" by simp
    with Inr show ?thesis by simp
  qed
qed

lemma emit_Inl:
  assumes "emit U name = Inl e"
  shows "e = UnicodeEncodeError"
proof (cases "special_key (py_upper U name)")
  case None
  with assms have "utf8_encode ([LBRACE] @ name @ [RBRACE]) = Inl e"
    by (simp only: emit_def option.case)
  then show ?thesis by (rule utf8_encode_Inl)
next
  case (Some k)
  with assms show ?thesis by (simp add: emit_def)
qed

lemma parse_keys_Inl: "parse_keys U s = Inl e \<Longrightarrow> e = UnicodeEncodeError"
proof (induction "length s" arbitrary: s e rule: less_induct)
  case less
  show ?case
  proof (cases "first_match s")
    case None
    with less.prems utf8_encode_Inl show ?thesis by (simp add: parse_keys_no_match)
  next
    case (Some x)
    obtain p name rest where "x = (p, name, rest)" by (cases x)
    with Some have f: "first_match s = Some (p, name, rest)" by simp
    from first_match_decomp [OF f] have l: "length rest < length s" by simp
    show ?thesis
    proof (cases "utf8_encode p")
      case (Inl x)
      with less.prems utf8_encode_Inl [OF Inl] show ?thesis by (simp add: parse_keys_first [OF f])
    next
      case a: (Inr a)
      show ?thesis
      proof (cases "emit U name")
        case (Inl x)
        with less.prems a emit_Inl [OF Inl] show ?thesis by (simp add: parse_keys_first [OF f])
      next
        case b: (Inr b)
        show ?thesis
        proof (cases "parse_keys U rest")
          case (Inl x)
          with less.prems a b less.hyps [OF l Inl] show ?thesis
            by (simp add: parse_keys_first [OF f])
        next
          case (Inr c)
          with less.prems a b show ?thesis by (simp add: parse_keys_first [OF f])
        qed
      qed
    qed
  qed
qed

lemma emit_slice:
  assumes "m \<in> set (finditer s)"
  shows "emit U (group1 m) =
     (case special_key (py_upper U (group1 m)) of
        Some k \<Rightarrow> Inr k
      | None \<Rightarrow> utf8_encode (slice s (m_start m) (m_end m)))"
  using parse_keys_at_match [OF assms, of U]
  by (cases "special_key (py_upper U (group1 m))") (simp_all add: emit_def)

lemma scalar_parts:
  assumes "list_all scalar_value s" and "m \<in> set (finditer s)"
  shows "list_all scalar_value (take (m_start m) s)" "list_all scalar_value (drop (m_end m) s)"
    "list_all scalar_value ([LBRACE] @ group1 m @ [RBRACE])"
proof -
  from assms(1) show "list_all scalar_value (take (m_start m) s)"
    by (auto simp: list_all_iff dest: in_set_takeD)
  from assms(1) show "list_all scalar_value (drop (m_end m) s)"
    by (auto simp: list_all_iff dest: in_set_dropD)
  from parse_keys_at_match [OF assms(2), of U]
  have "slice s (m_start m) (m_end m) = [LBRACE] @ group1 m @ [RBRACE]" by simp
  moreover have "list_all scalar_value (slice s (m_start m) (m_end m))"
    using assms(1) by (auto simp: list_all_iff slice_def dest: in_set_takeD in_set_dropD)
  ultimately show "list_all scalar_value ([LBRACE] @ group1 m @ [RBRACE])" by simp
qed

lemma three_Inl:
  assumes "a = Inl UnicodeEncodeError \<or> b = Inl UnicodeEncodeError \<or> c = Inl UnicodeEncodeError"
    and "\<And>e. a = Inl e \<Longrightarrow> e = UnicodeEncodeError"
    and "\<And>e. b = Inl e \<Longrightarrow> e = UnicodeEncodeError"
  shows "bnd a (\<lambda>x. bnd b (\<lambda>y. bnd c (\<lambda>z. Inr (x @ y @ z)))) = Inl UnicodeEncodeError"
  using assms by (cases a; cases b; cases c) auto

lemma special_key_ascii:
  assumes "special_key k = Some v" and "c \<in> set k"
  shows "c < 0x60"
proof -
  from assms(1) have "(k, v) \<in> set SPECIAL_KEYS"
    by (simp add: special_key_def map_of_SomeD)
  with SPECIAL_KEYS_chars assms(2) show ?thesis by fastforce
qed

lemma emit_not_scalar:
  assumes c: "c \<in> set name" and ns: "\<not> scalar_value c" and u: "U c = [c]"
  shows "emit U name = Inl UnicodeEncodeError"
proof -
  from ns have big: "\<not> c < 0x80" by (auto simp: scalar_value_def)
  then have "upper_cp U c = [c]" by (simp add: upper_cp_def u)
  with c have "c \<in> set (py_upper U name)" by (force simp: py_upper_def)
  with special_key_ascii [of "py_upper U name" _ c] big
  have "special_key (py_upper U name) = None"
    by (cases "special_key (py_upper U name)") auto
  moreover from c ns have "\<not> list_all scalar_value ([LBRACE] @ name @ [RBRACE])"
    by (auto simp: list_all_iff)
  then have "utf8_encode ([LBRACE] @ name @ [RBRACE]) = Inl UnicodeEncodeError"
    by (rule utf8_encode_not_scalar)
  ultimately show ?thesis by (simp only: emit_def option.case)
qed

lemma parse_keys_not_scalar:
  assumes "\<forall>c \<in> set s. \<not> scalar_value c \<longrightarrow> U c = [c]" and "\<not> list_all scalar_value s"
  shows "parse_keys U s = Inl UnicodeEncodeError"
  using assms
proof (induction "length s" arbitrary: s rule: less_induct)
  case less
  show ?case
  proof (cases "finditer s")
    case Nil
    with less.prems(2) show ?thesis
      by (simp add: finditer_Nil_iff parse_keys_no_match utf8_encode_not_scalar)
  next
    case (Cons m ms)
    then have m: "m \<in> set (finditer s)" by simp
    note pm = parse_keys_at_match [OF m, of U]
    from pm have lt: "m_start m < m_end m" and le: "m_end m \<le> length s"
      and sl: "slice s (m_start m) (m_end m) = [LBRACE] @ group1 m @ [RBRACE]" by simp_all
    have d1: "drop (m_end m) s = drop (m_end m - m_start m) (drop (m_start m) s)"
      using lt by simp
    have d2: "slice s (m_start m) (m_end m) = take (m_end m - m_start m) (drop (m_start m) s)"
      by (simp add: slice_def drop_take)
    have "slice s (m_start m) (m_end m) @ drop (m_end m) s = drop (m_start m) s"
      unfolding d1 d2 by (rule append_take_drop_id)
    then have split: "s = take (m_start m) s @ slice s (m_start m) (m_end m) @ drop (m_end m) s"
      by simp
    from less.prems(2) obtain c where c: "c \<in> set s" and ns: "\<not> scalar_value c"
      by (auto simp: list_all_iff)
    from less.prems(1) c ns have u: "U c = [c]" by blast
    from c split have "c \<in> set (take (m_start m) s) \<or> c \<in> set (group1 m)
        \<or> c \<in> set (drop (m_end m) s) \<or> c = LBRACE \<or> c = RBRACE"
      unfolding sl by (metis Un_iff set_append set_ConsD empty_iff list.set(1))
    with ns have where_c: "c \<in> set (take (m_start m) s) \<or> c \<in> set (group1 m)
        \<or> c \<in> set (drop (m_end m) s)"
      by (auto simp: scalar_value_def LBRACE_def RBRACE_def)
    have sub1: "\<forall>c \<in> set (take (m_start m) s). \<not> scalar_value c \<longrightarrow> U c = [c]"
      using less.prems(1) by (auto dest: in_set_takeD)
    have sub2: "\<forall>c \<in> set (drop (m_end m) s). \<not> scalar_value c \<longrightarrow> U c = [c]"
      using less.prems(1) by (auto dest: in_set_dropD)
    have "parse_keys U (take (m_start m) s) = Inl UnicodeEncodeError
        \<or> emit U (group1 m) = Inl UnicodeEncodeError
        \<or> parse_keys U (drop (m_end m) s) = Inl UnicodeEncodeError"
    proof -
      consider "c \<in> set (take (m_start m) s)" | "c \<in> set (group1 m)"
        | "c \<in> set (drop (m_end m) s)" using where_c by blast
      then show ?thesis
      proof cases
        case 1
        then have "\<not> list_all scalar_value (take (m_start m) s)"
          using ns by (auto simp: list_all_iff)
        moreover have "length (take (m_start m) s) < length s" using lt le by simp
        ultimately show ?thesis using less.hyps sub1 by blast
      next
        case 2
        from 2 ns u have "emit U (group1 m) = Inl UnicodeEncodeError" by (rule emit_not_scalar)
        then show ?thesis by simp
      next
        case 3
        then have "\<not> list_all scalar_value (drop (m_end m) s)"
          using ns by (auto simp: list_all_iff)
        moreover have "length (drop (m_end m) s) < length s" using lt le by simp
        ultimately show ?thesis using less.hyps sub2 by blast
      qed
    qed
    from three_Inl [OF this parse_keys_Inl emit_Inl] pm show ?thesis by simp
  qed
qed

section \<open>Properties of the key encoder\<close>



text \<open>
  C8, as the claim states it, fails on a token that holds a surrogate code point: the name
  \<open>U+D800\<close> is in no key table, and encoding the token as it stands raises
  \<open>UnicodeEncodeError\<close> instead of re-emitting it.
\<close>

theorem unknown_token_surrogate_counterexample:
  "special_key (py_upper uncased [0xD800]) = None
   \<and> parse_keys uncased [0x7B, 0xD800, 0x7D] = Inl UnicodeEncodeError"
  by (simp add: parse_keys_def finditer_def finditer_from.simps match_at.simps
        LBRACE_def RBRACE_def parse_step_def special_key_def SPECIAL_KEYS_def py_upper_def
        upper_cp_def uncased_def encode_cp_def slice_def BACKSLASH_def str_def)

text \<open>
  C8, amended. Every brace-delimited token of the input, wherever it stands, splits the
  encoding in three: the encoding of the input before the token, the bytes of the token, and
  the encoding of the input after it; the bytes of the token are the table's when its
  upper-cased name is in the key table, and otherwise the UTF-8 encoding of the token as it
  stands in the input, braces included. Input without any token is encoded as its UTF-8
  bytes. So, when the input holds no surrogate, an unrecognised token comes out verbatim,
  with its braces, between the bytes of what precedes it and the bytes of what follows it:
  no error arises and nothing is dropped, and an input none of whose tokens is recognised
  encodes to its own UTF-8 bytes. An unrecognised token that holds a code point that is no
  Unicode scalar value, as a surrogate is, makes the encoder raise \<open>UnicodeEncodeError\<close>;
  and since upper-casing leaves such a code point as it is, so that no name holding one is
  in the key table, so does every input that holds one, in a token or in the text around.
  \<open>{FOO}\<close> encodes to the five bytes of \<open>{FOO}\<close>.
\<close>

theorem unknown_token_verbatim:
  "(m \<in> set (finditer s) \<longrightarrow>
      slice s (m_start m) (m_end m) = [LBRACE] @ group1 m @ [RBRACE]
      \<and> parse_keys U s =
          bnd (parse_keys U (take (m_start m) s)) (\<lambda>a.
            bnd (case special_key (py_upper U (group1 m)) of
                   Some k \<Rightarrow> Inr k
                 | None \<Rightarrow> utf8_encode (slice s (m_start m) (m_end m))) (\<lambda>b.
              bnd (parse_keys U (drop (m_end m) s)) (\<lambda>c. Inr (a @ b @ c)))))
   \<and> (finditer s = [] \<longrightarrow> parse_keys U s = utf8_encode s)
   \<and> (list_all scalar_value s \<and> m \<in> set (finditer s)
        \<and> special_key (py_upper U (group1 m)) = None \<longrightarrow>
      (\<exists>a b c. parse_keys U (take (m_start m) s) = Inr a
         \<and> utf8_encode ([LBRACE] @ group1 m @ [RBRACE]) = Inr b
         \<and> parse_keys U (drop (m_end m) s) = Inr c
         \<and> parse_keys U s = Inr (a @ b @ c)))
   \<and> (list_all scalar_value s
        \<and> (\<forall>m \<in> set (finditer s). special_key (py_upper U (group1 m)) = None) \<longrightarrow>
      (\<exists>b. utf8_encode s = Inr b \<and> parse_keys U s = Inr b))
   \<and> (m \<in> set (finditer s) \<and> special_key (py_upper U (group1 m)) = None
        \<and> \<not> list_all scalar_value (group1 m) \<longrightarrow>
      parse_keys U s = Inl UnicodeEncodeError)
   \<and> ((\<forall>c \<in> set s. \<not> scalar_value c \<longrightarrow> U c = [c]) \<and> \<not> list_all scalar_value s \<longrightarrow>
      parse_keys U s = Inl UnicodeEncodeError)
   \<and> parse_keys U (str ''{FOO}'') = Inr [0x7B, 0x46, 0x4F, 0x4F, 0x7D]"
proof (intro conjI impI)
  assume m: "m \<in> set (finditer s)"
  from parse_keys_at_match [OF m, of U] emit_slice [OF m, of U]
  show "parse_keys U s =
          bnd (parse_keys U (take (m_start m) s)) (\<lambda>a.
            bnd (case special_key (py_upper U (group1 m)) of
                   Some k \<Rightarrow> Inr k
                 | None \<Rightarrow> utf8_encode (slice s (m_start m) (m_end m))) (\<lambda>b.
              bnd (parse_keys U (drop (m_end m) s)) (\<lambda>c. Inr (a @ b @ c))))"
    by simp
  from parse_keys_at_match [OF m, of U]
  show "slice s (m_start m) (m_end m) = [LBRACE] @ group1 m @ [RBRACE]" by simp
next
  assume "finditer s = []"
  then show "parse_keys U s = utf8_encode s"
    by (simp add: finditer_Nil_iff parse_keys_no_match)
next
  assume h: "list_all scalar_value s \<and> m \<in> set (finditer s)
        \<and> special_key (py_upper U (group1 m)) = None"
  then have sc: "list_all scalar_value s" and m: "m \<in> set (finditer s)"
    and u: "special_key (py_upper U (group1 m)) = None" by simp_all
  from scalar_parts [OF sc m] obtain a b c
    where a: "parse_keys U (take (m_start m) s) = Inr a"
      and b: "utf8_encode ([LBRACE] @ group1 m @ [RBRACE]) = Inr b"
      and c: "parse_keys U (drop (m_end m) s) = Inr c"
    using parse_keys_scalar utf8_encode_scalar by metis
  from u b have "emit U (group1 m) = Inr b" by (simp add: emit_def)
  with parse_keys_at_match [OF m, of U] a c have "parse_keys U s = Inr (a @ b @ c)" by simp
  with a b c show "\<exists>a b c. parse_keys U (take (m_start m) s) = Inr a
         \<and> utf8_encode ([LBRACE] @ group1 m @ [RBRACE]) = Inr b
         \<and> parse_keys U (drop (m_end m) s) = Inr c
         \<and> parse_keys U s = Inr (a @ b @ c)" by blast
next
  assume "list_all scalar_value s
      \<and> (\<forall>m \<in> set (finditer s). special_key (py_upper U (group1 m)) = None)"
  then show "\<exists>b. utf8_encode s = Inr b \<and> parse_keys U s = Inr b"
    using utf8_encode_scalar [of s] parse_keys_all_unknown [of s U] by auto
next
  assume h: "m \<in> set (finditer s) \<and> special_key (py_upper U (group1 m)) = None
        \<and> \<not> list_all scalar_value (group1 m)"
  then have m: "m \<in> set (finditer s)" and u: "special_key (py_upper U (group1 m)) = None"
    and ns: "\<not> list_all scalar_value ([LBRACE] @ group1 m @ [RBRACE])" by simp_all
  from u utf8_encode_not_scalar [OF ns]
  have e: "emit U (group1 m) = Inl UnicodeEncodeError" by (simp add: emit_def)
  show "parse_keys U s = Inl UnicodeEncodeError"
  proof (cases "parse_keys U (take (m_start m) s)")
    case (Inl x)
    with parse_keys_Inl [OF Inl] parse_keys_at_match [OF m, of U] show ?thesis by simp
  next
    case (Inr a)
    with e parse_keys_at_match [OF m, of U] show ?thesis by simp
  qed
next
  assume "(\<forall>c \<in> set s. \<not> scalar_value c \<longrightarrow> U c = [c]) \<and> \<not> list_all scalar_value s"
  then show "parse_keys U s = Inl UnicodeEncodeError"
    using parse_keys_not_scalar [of s U] by blast
next
  show "parse_keys U (str ''{FOO}'') = Inr [0x7B, 0x46, 0x4F, 0x4F, 0x7D]"
    by (simp add: parse_keys_def finditer_def finditer_from.simps match_at.simps
        LBRACE_def RBRACE_def parse_step_def special_key_def SPECIAL_KEYS_def py_upper_def
        upper_cp_def encode_cp_def slice_def BACKSLASH_def str_def)
qed

theorem unknown_token_verbatim_witness:
  "Match 5 10 (str ''FOO'') \<in> set (finditer (str ''{TAB}{FOO}x''))
   \<and> list_all scalar_value (str ''{TAB}{FOO}x'')
   \<and> special_key (py_upper uncased (str ''FOO'')) = None
   \<and> parse_keys uncased (str ''{TAB}{FOO}x'') = Inr [0x09, 0x7B, 0x46, 0x4F, 0x4F, 0x7D, 0x78]
   \<and> finditer (str ''hi'') = []
   \<and> parse_keys uncased (str ''hi'') = Inr [0x68, 0x69]
   \<and> list_all (\<lambda>m. special_key (py_upper uncased (group1 m)) = None)
        (finditer (str ''a{FOO}b''))
   \<and> parse_keys uncased (str ''a{FOO}b'') = Inr [0x61, 0x7B, 0x46, 0x4F, 0x4F, 0x7D, 0x62]
   \<and> Match 0 3 [0xD800] \<in> set (finditer [0x7B, 0xD800, 0x7D])
   \<and> \<not> list_all scalar_value [0xD800]
   \<and> parse_keys uncased [0x7B, 0xD800, 0x7D] = Inl UnicodeEncodeError
   \<and> list_all (\<lambda>c. uncased c = [c]) ([0xD800] @ str ''{FOO}'')
   \<and> \<not> list_all scalar_value ([0xD800] @ str ''{FOO}'')
   \<and> parse_keys uncased ([0xD800] @ str ''{FOO}'') = Inl UnicodeEncodeError"
proof -
  note ev = finditer_def finditer_from.simps match_at.simps str_def LBRACE_def RBRACE_def
  note ks = special_key_def SPECIAL_KEYS_def py_upper_def upper_cp_def BACKSLASH_def
  note pk = parse_keys_def parse_step_def encode_cp_def slice_def
  let ?s = "str ''{TAB}{FOO}x''" and ?m = "Match 5 10 (str ''FOO'')"
  have m1: "?m \<in> set (finditer ?s)" by (simp add: ev)
  have sc1: "list_all scalar_value ?s" by (simp add: str_def scalar_value_def)
  have u1: "special_key (py_upper uncased (str ''FOO'')) = None" by (simp add: ks str_def)
  have t1: "parse_keys uncased (take 5 ?s) = Inr [0x09]" by (simp add: pk ev ks)
  have d1: "parse_keys uncased (drop 10 ?s) = Inr [0x78]" by (simp add: pk ev ks)
  have b1: "utf8_encode ([LBRACE] @ str ''FOO'' @ [RBRACE]) = Inr [0x7B, 0x46, 0x4F, 0x4F, 0x7D]"
    by (simp add: str_def encode_cp_def LBRACE_def RBRACE_def)
  from unknown_token_verbatim [of ?m ?s uncased] m1 sc1 u1 t1 d1 b1
  have r1: "parse_keys uncased ?s = Inr [0x09, 0x7B, 0x46, 0x4F, 0x4F, 0x7D, 0x78]" by auto
  have f2: "finditer (str ''hi'') = []" by (simp add: ev)
  have e2: "utf8_encode (str ''hi'') = Inr [0x68, 0x69]" by (simp add: str_def encode_cp_def)
  from unknown_token_verbatim [of ?m "str ''hi''" uncased] f2 e2
  have r2: "parse_keys uncased (str ''hi'') = Inr [0x68, 0x69]" by simp
  let ?t = "str ''a{FOO}b''"
  have sc3: "list_all scalar_value ?t" by (simp add: str_def scalar_value_def)
  have u3: "\<forall>m \<in> set (finditer ?t). special_key (py_upper uncased (group1 m)) = None"
    by (simp add: ev ks)
  have e3: "utf8_encode ?t = Inr [0x61, 0x7B, 0x46, 0x4F, 0x4F, 0x7D, 0x62]"
    by (simp add: str_def encode_cp_def)
  from unknown_token_verbatim [of ?m ?t uncased] sc3 u3 e3
  have r3: "parse_keys uncased ?t = Inr [0x61, 0x7B, 0x46, 0x4F, 0x4F, 0x7D, 0x62]" by auto
  let ?v = "[0x7B, 0xD800, 0x7D] :: pystr" and ?n = "Match 0 3 [0xD800]"
  have m4: "?n \<in> set (finditer ?v)" by (simp add: ev)
  have u4: "special_key (py_upper uncased (group1 ?n)) = None" by (simp add: ks uncased_def str_def)
  have ns4: "\<not> list_all scalar_value [0xD800]" by (simp add: scalar_value_def)
  have ns4': "\<not> list_all scalar_value (group1 ?n)" by (simp add: scalar_value_def)
  from unknown_token_verbatim [of ?n ?v uncased] m4 u4 ns4'
  have r4: "parse_keys uncased ?v = Inl UnicodeEncodeError" by blast
  let ?w = "[0xD800] @ str ''{FOO}''"
  have i5: "\<forall>c \<in> set ?w. \<not> scalar_value c \<longrightarrow> uncased c = [c]" by (simp add: uncased_def)
  have i5': "list_all (\<lambda>c. uncased c = [c]) ?w" by (simp add: uncased_def list_all_iff)
  have ns5: "\<not> list_all scalar_value ?w" by (simp add: scalar_value_def)
  from unknown_token_verbatim [of ?m ?w uncased] i5 ns5
  have r5: "parse_keys uncased ?w = Inl UnicodeEncodeError" by blast
  from m1 sc1 u1 r1 f2 r2 u3 r3 m4 ns4 r4 have
    "Match 5 10 (str ''FOO'') \<in> set (finditer (str ''{TAB}{FOO}x''))
   \<and> list_all scalar_value (str ''{TAB}{FOO}x'')
   \<and> special_key (py_upper uncased (str ''FOO'')) = None
   \<and> parse_keys uncased (str ''{TAB}{FOO}x'') = Inr [0x09, 0x7B, 0x46, 0x4F, 0x4F, 0x7D, 0x78]
   \<and> finditer (str ''hi'') = []
   \<and> parse_keys uncased (str ''hi'') = Inr [0x68, 0x69]
   \<and> list_all (\<lambda>m. special_key (py_upper uncased (group1 m)) = None)
        (finditer (str ''a{FOO}b''))
   \<and> parse_keys uncased (str ''a{FOO}b'') = Inr [0x61, 0x7B, 0x46, 0x4F, 0x4F, 0x7D, 0x62]
   \<and> Match 0 3 [0xD800] \<in> set (finditer [0x7B, 0xD800, 0x7D])
   \<and> \<not> list_all scalar_value [0xD800]
   \<and> parse_keys uncased [0x7B, 0xD800, 0x7D] = Inl UnicodeEncodeError"
    by (simp add: list_all_iff)
  with i5' ns5 r5 show ?thesis by blast
qed

text \<open>
  C9. When no token spans the boundary, encoding a concatenation is encoding both parts and
  concatenating the bytes (and it raises exactly when one of the parts does); the empty
  string encodes to no bytes; text in which the pattern matches nowhere encodes to its
  UTF-8 bytes, as \<open>hello\<close> does.
\<close>

theorem encode_concat:
  "(no_token_across s1 s2 \<longrightarrow>
      parse_keys U (s1 @ s2) =
        bnd (parse_keys U s1) (\<lambda>a. bnd (parse_keys U s2) (\<lambda>b. Inr (a @ b))))
   \<and> parse_keys U [] = Inr []
   \<and> (finditer s = [] \<longrightarrow> parse_keys U s = utf8_encode s)
   \<and> parse_keys U (str ''hello'') = Inr [0x68, 0x65, 0x6C, 0x6C, 0x6F]"
proof -
  have "finditer (str ''hello'') = []"
    by (simp add: finditer_Nil_iff first_match_no_lbrace str_def LBRACE_def)
  then have "parse_keys U (str ''hello'') = utf8_encode (str ''hello'')"
    by (simp add: finditer_Nil_iff parse_keys_no_match)
  also have "\<dots> = Inr [0x68, 0x65, 0x6C, 0x6C, 0x6F]"
    by (simp add: str_def encode_cp_def)
  finally show ?thesis
    by (simp add: parse_keys_append parse_keys_Nil finditer_Nil_iff parse_keys_no_match)
qed

theorem encode_concat_witness:
  "no_token_across (str ''a{TAB}'') (str ''{x}b'') \<and> finditer (str ''hi'') = []
   \<and> parse_keys uncased (str ''a{TAB}'' @ str ''{x}b'') = Inr [0x61, 0x09, 0x7B, 0x78, 0x7D, 0x62]
   \<and> parse_keys uncased (str ''hi'') = Inr [0x68, 0x69]"
proof -
  have h1: "no_token_across (str ''a{TAB}'') (str ''{x}b'')"
    by (simp add: no_token_across_def finditer_def finditer_from.simps match_at.simps
          str_def LBRACE_def RBRACE_def)
  have h2: "finditer (str ''hi'') = []"
    by (simp add: finditer_def finditer_from.simps match_at.simps str_def LBRACE_def)
  have a: "parse_keys uncased (str ''a{TAB}'') = Inr [0x61, 0x09]"
    by (simp add: parse_keys_def finditer_def finditer_from.simps match_at.simps str_def
          LBRACE_def RBRACE_def parse_step_def special_key_def SPECIAL_KEYS_def py_upper_def
          upper_cp_def encode_cp_def slice_def BACKSLASH_def)
  have b: "parse_keys uncased (str ''{x}b'') = Inr [0x7B, 0x78, 0x7D, 0x62]"
    by (simp add: parse_keys_def finditer_def finditer_from.simps match_at.simps str_def
          LBRACE_def RBRACE_def parse_step_def special_key_def SPECIAL_KEYS_def py_upper_def
          upper_cp_def encode_cp_def slice_def BACKSLASH_def)
  have c: "utf8_encode (str ''hi'') = Inr [0x68, 0x69]"
    by (simp add: str_def encode_cp_def)
  from encode_concat [of "str ''a{TAB}''" "str ''{x}b''" uncased "str ''hi''"] h1 h2 a b c
  show ?thesis by simp
qed

text \<open>
  C10, as the claim states it, fails: a string may hold a lone surrogate, and the strict
  UTF-8 codec raises on it.
\<close>

theorem parse_keys_surrogate_counterexample:
  "parse_keys uncased [0xD800] = Inl UnicodeEncodeError"
  by (simp add: parse_keys_def finditer_def finditer_from.simps match_at.simps
        LBRACE_def parse_step_def encode_cp_def)

text \<open>
  C10, amended. On every string without surrogate code points \<open>parse_keys\<close> returns bytes.
  A match of the pattern is an opening brace, one character or more, none of them a closing
  brace, and a closing brace; the encoding of the input is the encoding of what precedes the
  match, the bytes of the match (the key's, or the matched text as it stands) and the
  encoding of what follows. Input in which the pattern matches nowhere is encoded as its
  UTF-8 bytes, all of it; it raises \<open>UnicodeEncodeError\<close> when it holds a surrogate. So
  does every input that holds a surrogate, when upper-casing leaves the code points that are
  no Unicode scalar values as they are, which is what \<open>str.upper()\<close> does. A
  brace pair with nothing inside is no match: the matches of \<open>{}\<close> followed by \<open>s\<close> are
  those of \<open>s\<close>, two places further, and the pair comes out as the two bytes of \<open>{}\<close>
  before the encoding of \<open>s\<close>; after text, \<open>a{}\<close> gives the three bytes of \<open>a{}\<close>. A
  string without a closing brace has no match, so an unclosed opening brace such as
  \<open>{ENTER\<close> is literal text, and so is the one of \<open>x}{ENTER\<close>.
\<close>

theorem parse_keys_returns:
  "(list_all scalar_value s \<longrightarrow> (\<exists>b. parse_keys U s = Inr b))
   \<and> (m \<in> set (finditer s) \<longrightarrow>
        m_start m < m_end m \<and> m_end m \<le> length s
        \<and> group1 m \<noteq> [] \<and> RBRACE \<notin> set (group1 m)
        \<and> slice s (m_start m) (m_end m) = [LBRACE] @ group1 m @ [RBRACE]
        \<and> parse_keys U s =
            bnd (parse_keys U (take (m_start m) s)) (\<lambda>a.
              bnd (case special_key (py_upper U (group1 m)) of
                     Some k \<Rightarrow> Inr k
                   | None \<Rightarrow> utf8_encode (slice s (m_start m) (m_end m))) (\<lambda>b.
                bnd (parse_keys U (drop (m_end m) s)) (\<lambda>c. Inr (a @ b @ c)))))
   \<and> (finditer s = [] \<longrightarrow> parse_keys U s = utf8_encode s)
   \<and> (finditer s = [] \<and> \<not> list_all scalar_value s \<longrightarrow>
        parse_keys U s = Inl UnicodeEncodeError)
   \<and> ((\<forall>c \<in> set s. \<not> scalar_value c \<longrightarrow> U c = [c]) \<and> \<not> list_all scalar_value s \<longrightarrow>
        parse_keys U s = Inl UnicodeEncodeError)
   \<and> (RBRACE \<notin> set s \<longrightarrow> finditer s = [] \<and> parse_keys U s = utf8_encode s)
   \<and> finditer (str ''{}'' @ s) = map (shift 2) (finditer s)
   \<and> parse_keys U (str ''{}'' @ s) = bnd (parse_keys U s) (\<lambda>b. Inr (0x7B # 0x7D # b))
   \<and> parse_keys U (str ''{}'') = Inr [0x7B, 0x7D]
   \<and> parse_keys U (str ''a{}'') = Inr [0x61, 0x7B, 0x7D]
   \<and> parse_keys U (str ''{ENTER'') = Inr [0x7B, 0x45, 0x4E, 0x54, 0x45, 0x52]
   \<and> parse_keys U (str ''x}{ENTER'') = Inr [0x78, 0x7D, 0x7B, 0x45, 0x4E, 0x54, 0x45, 0x52]"
proof (intro conjI impI)
  assume "list_all scalar_value s"
  then show "\<exists>b. parse_keys U s = Inr b" by (rule parse_keys_scalar)
next
  assume m: "m \<in> set (finditer s)"
  note pm = parse_keys_at_match [OF m, of U]
  from pm show "m_start m < m_end m" "m_end m \<le> length s" "group1 m \<noteq> []"
    "RBRACE \<notin> set (group1 m)"
    "slice s (m_start m) (m_end m) = [LBRACE] @ group1 m @ [RBRACE]" by simp_all
  from pm emit_slice [OF m, of U]
  show "parse_keys U s =
            bnd (parse_keys U (take (m_start m) s)) (\<lambda>a.
              bnd (case special_key (py_upper U (group1 m)) of
                     Some k \<Rightarrow> Inr k
                   | None \<Rightarrow> utf8_encode (slice s (m_start m) (m_end m))) (\<lambda>b.
                bnd (parse_keys U (drop (m_end m) s)) (\<lambda>c. Inr (a @ b @ c))))"
    by simp
next
  assume "finditer s = []"
  then show "parse_keys U s = utf8_encode s"
    by (simp add: finditer_Nil_iff parse_keys_no_match)
next
  assume "finditer s = [] \<and> \<not> list_all scalar_value s"
  then show "parse_keys U s = Inl UnicodeEncodeError"
    by (simp add: finditer_Nil_iff parse_keys_no_match utf8_encode_not_scalar)
next
  assume "(\<forall>c \<in> set s. \<not> scalar_value c \<longrightarrow> U c = [c]) \<and> \<not> list_all scalar_value s"
  then show "parse_keys U s = Inl UnicodeEncodeError"
    using parse_keys_not_scalar [of s U] by blast
next
  assume "RBRACE \<notin> set s"
  then show "finditer s = []" by (simp add: finditer_Nil_iff first_match_no_rbrace)
next
  assume "RBRACE \<notin> set s"
  then show "parse_keys U s = utf8_encode s"
    by (simp add: parse_keys_no_match first_match_no_rbrace)
next
  have eq: "str ''{}'' @ s = LBRACE # RBRACE # s" by (simp add: str_def LBRACE_def RBRACE_def)
  have m1: "match_at (LBRACE # RBRACE # s) = None" by (simp add: match_at.simps)
  have m2: "match_at (RBRACE # s) = None"
    by (simp add: match_at_not_lbrace LBRACE_def RBRACE_def)
  have "finditer_from 0 (LBRACE # RBRACE # s) = finditer_from 2 s"
    by (simp add: finditer_from_Cons_None [OF m1] finditer_from_Cons_None [OF m2]
          numeral_2_eq_2)
  then show "finditer (str ''{}'' @ s) = map (shift 2) (finditer s)"
    unfolding eq finditer_def by (simp add: finditer_from_shift [of 2 s])
next
  have "str ''{}'' @ s = LBRACE # RBRACE # s" by (simp add: str_def LBRACE_def RBRACE_def)
  then show "parse_keys U (str ''{}'' @ s) = bnd (parse_keys U s) (\<lambda>b. Inr (0x7B # 0x7D # b))"
    by (simp add: parse_keys_empty_pair)
next
  have "str ''{}'' = LBRACE # RBRACE # []" by (simp add: str_def LBRACE_def RBRACE_def)
  then show "parse_keys U (str ''{}'') = Inr [0x7B, 0x7D]"
    by (simp add: parse_keys_empty_pair parse_keys_Nil)
next
  have "finditer (str ''a{}'') = []"
    by (simp add: finditer_def finditer_from.simps match_at.simps str_def LBRACE_def RBRACE_def)
  then have "parse_keys U (str ''a{}'') = utf8_encode (str ''a{}'')"
    by (simp add: finditer_Nil_iff parse_keys_no_match)
  then show "parse_keys U (str ''a{}'') = Inr [0x61, 0x7B, 0x7D]"
    by (simp add: str_def encode_cp_def)
next
  have "RBRACE \<notin> set (str ''{ENTER'')" by (simp add: str_def RBRACE_def)
  then have "parse_keys U (str ''{ENTER'') = utf8_encode (str ''{ENTER'')"
    by (simp add: parse_keys_no_match first_match_no_rbrace)
  then show "parse_keys U (str ''{ENTER'') = Inr [0x7B, 0x45, 0x4E, 0x54, 0x45, 0x52]"
    by (simp add: str_def encode_cp_def)
next
  have "finditer (str ''x}{ENTER'') = []"
    by (simp add: finditer_def finditer_from.simps match_at.simps str_def LBRACE_def RBRACE_def)
  then have "parse_keys U (str ''x}{ENTER'') = utf8_encode (str ''x}{ENTER'')"
    by (simp add: finditer_Nil_iff parse_keys_no_match)
  then show "parse_keys U (str ''x}{ENTER'') = Inr [0x78, 0x7D, 0x7B, 0x45, 0x4E, 0x54, 0x45, 0x52]"
    by (simp add: str_def encode_cp_def)
qed

theorem parse_keys_returns_witness:
  "list_all scalar_value (str ''{UP'') \<and> RBRACE \<notin> set (str ''{UP'')
   \<and> finditer (str ''{UP'') = []
   \<and> parse_keys uncased (str ''{UP'') = Inr [0x7B, 0x55, 0x50]
   \<and> Match 2 7 (str ''TAB'') \<in> set (finditer (str ''{}{TAB}''))
   \<and> parse_keys uncased (str ''{}{TAB}'') = Inr [0x7B, 0x7D, 0x09]
   \<and> finditer [0xD800] = [] \<and> \<not> list_all scalar_value [0xD800]
   \<and> parse_keys uncased [0xD800] = Inl UnicodeEncodeError
   \<and> list_all (\<lambda>c. uncased c = [c]) (str ''{TAB}'' @ [0xD800])
   \<and> \<not> list_all scalar_value (str ''{TAB}'' @ [0xD800])
   \<and> parse_keys uncased (str ''{TAB}'' @ [0xD800]) = Inl UnicodeEncodeError"
proof -
  note ev = finditer_def finditer_from.simps match_at.simps str_def LBRACE_def RBRACE_def
  note ks = special_key_def SPECIAL_KEYS_def py_upper_def upper_cp_def BACKSLASH_def
  let ?m = "Match 2 7 (str ''TAB'')"
  have h: "list_all scalar_value (str ''{UP'')" "RBRACE \<notin> set (str ''{UP'')"
    by (simp_all add: str_def scalar_value_def RBRACE_def)
  have u: "utf8_encode (str ''{UP'') = Inr [0x7B, 0x55, 0x50]"
    by (simp add: str_def encode_cp_def)
  from parse_keys_returns [of "str ''{UP''" uncased ?m] h u
  have a: "finditer (str ''{UP'') = []" "parse_keys uncased (str ''{UP'') = Inr [0x7B, 0x55, 0x50]"
    by simp_all
  let ?s = "str ''{}{TAB}''"
  have m: "?m \<in> set (finditer ?s)" by (simp add: ev)
  have k: "special_key (py_upper uncased (group1 ?m)) = Some [0x09]" by (simp add: ks str_def)
  have t: "parse_keys uncased (take 2 ?s) = Inr [0x7B, 0x7D]"
    using parse_keys_returns [of "[]" uncased ?m] by (simp add: str_def)
  have d: "parse_keys uncased (drop 7 ?s) = Inr []" by (simp add: str_def parse_keys_Nil)
  from parse_keys_returns [of ?s uncased ?m] m k t d
  have b: "parse_keys uncased ?s = Inr [0x7B, 0x7D, 0x09]" by simp
  have f: "finditer [0xD800] = []" by (simp add: ev)
  have ns: "\<not> list_all scalar_value [0xD800]" by (simp add: scalar_value_def)
  from parse_keys_returns [of "[0xD800]" uncased ?m] f ns
  have c: "parse_keys uncased [0xD800] = Inl UnicodeEncodeError" by blast
  let ?w = "str ''{TAB}'' @ [0xD800]"
  have i: "\<forall>c \<in> set ?w. \<not> scalar_value c \<longrightarrow> uncased c = [c]" by (simp add: uncased_def)
  have i': "list_all (\<lambda>c. uncased c = [c]) ?w" by (simp add: uncased_def list_all_iff)
  have nw: "\<not> list_all scalar_value ?w" by (simp add: scalar_value_def)
  from parse_keys_returns [of ?w uncased ?m] i nw
  have r: "parse_keys uncased ?w = Inl UnicodeEncodeError" by blast
  from h a m b f ns c have
    "list_all scalar_value (str ''{UP'') \<and> RBRACE \<notin> set (str ''{UP'')
   \<and> finditer (str ''{UP'') = []
   \<and> parse_keys uncased (str ''{UP'') = Inr [0x7B, 0x55, 0x50]
   \<and> Match 2 7 (str ''TAB'') \<in> set (finditer (str ''{}{TAB}''))
   \<and> parse_keys uncased (str ''{}{TAB}'') = Inr [0x7B, 0x7D, 0x09]
   \<and> finditer [0xD800] = [] \<and> \<not> list_all scalar_value [0xD800]
   \<and> parse_keys uncased [0xD800] = Inl UnicodeEncodeError"
    by simp
  with i' nw r show ?thesis by blast
qed

section \<open>The session, call by call\<close>

lemma seq_Inr: "m st = (Inr v, st') \<Longrightarrow> seq m f st = f v st'"
  by (simp add: seq_def)

lemma seq_Inl: "m st = (Inl ex, st') \<Longrightarrow> seq m f st = (Inl ex, st')"
  by (simp add: seq_def)

lemma close_fd_swallowed:
  "except_OSError (os_close e f) (ret ()) tr = (Inr (), tr @ [Close f])"
  by (cases "close_result e tr f") (simp_all add: except_OSError_def os_close_def ret_def)

lemma is_alive_eq:
  "is_alive e s tr = (Inr (kill_result e tr (pid s) SIG0 = None), tr @ [Kill (pid s) SIG0])"
  by (cases "kill_result e tr (pid s) SIG0")
     (simp_all add: is_alive_def except_OSError_def seq_def os_kill_def ret_def)

lemma probe_eq:
  "except_OSError
     (seq (os_kill e p SIG0) (\<lambda>_. seq (time_sleep 100) (\<lambda>_. ret True))) (ret False) tr =
   (if kill_result e tr p SIG0 = None then (Inr True, tr @ [Kill p SIG0, Sleep 100])
    else (Inr False, tr @ [Kill p SIG0]))"
  by (cases "kill_result e tr p SIG0")
     (simp_all add: except_OSError_def seq_def os_kill_def ret_def time_sleep_def)

lemma polls_Suc: "polls p (Suc k) = [Kill p SIG0, Sleep 100] @ polls p k"
  by (simp add: polls_def)

lemma polls_0: "polls p 0 = []"
  by (simp add: polls_def)

lemma poll_loop_all_ok:
  "(\<forall>i<n. kill_result e (tr @ polls (pid s) i) (pid s) SIG0 = None) \<Longrightarrow>
     poll_loop e s n tr = (Inr True, tr @ polls (pid s) n)"
proof (induction n arbitrary: tr)
  case 0
  show ?case by (simp add: ret_def polls_0)
next
  case (Suc n)
  from Suc.prems have k0: "kill_result e tr (pid s) SIG0 = None"
    using polls_0 [of "pid s"] by (metis append_Nil2 zero_less_Suc)
  have "\<forall>i<n. kill_result e ((tr @ [Kill (pid s) SIG0, Sleep 100]) @ polls (pid s) i) (pid s) SIG0 = None"
  proof (intro allI impI)
    fix i assume "i < n"
    then have "kill_result e (tr @ polls (pid s) (Suc i)) (pid s) SIG0 = None"
      using Suc.prems by simp
    then show "kill_result e ((tr @ [Kill (pid s) SIG0, Sleep 100]) @ polls (pid s) i) (pid s) SIG0 = None"
      by (simp add: polls_Suc)
  qed
  from Suc.IH [OF this] k0 show ?case
    by (simp add: seq_def probe_eq polls_Suc)
qed

lemma poll_loop_fail:
  "j < n \<Longrightarrow> (\<forall>i<j. kill_result e (tr @ polls (pid s) i) (pid s) SIG0 = None) \<Longrightarrow>
   kill_result e (tr @ polls (pid s) j) (pid s) SIG0 \<noteq> None \<Longrightarrow>
     poll_loop e s n tr = (Inr False, tr @ polls (pid s) j @ [Kill (pid s) SIG0])"
proof (induction n arbitrary: tr j)
  case 0
  then show ?case by simp
next
  case (Suc n)
  show ?case
  proof (cases j)
    case 0
    with Suc.prems have "kill_result e tr (pid s) SIG0 \<noteq> None" by (simp add: polls_0)
    then show ?thesis using 0 by (auto simp add: seq_def probe_eq polls_0 ret_def)
  next
    case (Suc j')
    with Suc.prems have k0: "kill_result e tr (pid s) SIG0 = None"
      using polls_0 [of "pid s"] by (metis append_Nil2 zero_less_Suc)
    let ?tr = "tr @ [Kill (pid s) SIG0, Sleep 100]"
    have a: "j' < n" using Suc Suc.prems by simp
    have b: "\<forall>i<j'. kill_result e (?tr @ polls (pid s) i) (pid s) SIG0 = None"
    proof (intro allI impI)
      fix i assume "i < j'"
      then have "kill_result e (tr @ polls (pid s) (Suc i)) (pid s) SIG0 = None"
        using Suc.prems Suc by simp
      then show "kill_result e (?tr @ polls (pid s) i) (pid s) SIG0 = None"
        by (simp add: polls_Suc)
    qed
    have c: "kill_result e (?tr @ polls (pid s) j') (pid s) SIG0 \<noteq> None"
      using Suc.prems(3) Suc by (simp add: polls_Suc)
    from Suc.IH [OF a b c] k0 Suc show ?thesis
      by (simp add: seq_def probe_eq polls_Suc)
  qed
qed

lemma poll_loop_cases:
  obtains (exhausted) "\<forall>i<n. kill_result e (tr @ polls (pid s) i) (pid s) SIG0 = None"
      "poll_loop e s n tr = (Inr True, tr @ polls (pid s) n)"
  | (broke) j where "j < n" "\<forall>i<j. kill_result e (tr @ polls (pid s) i) (pid s) SIG0 = None"
      "kill_result e (tr @ polls (pid s) j) (pid s) SIG0 \<noteq> None"
      "poll_loop e s n tr = (Inr False, tr @ polls (pid s) j @ [Kill (pid s) SIG0])"
proof (cases "\<forall>i<n. kill_result e (tr @ polls (pid s) i) (pid s) SIG0 = None")
  case True
  then show ?thesis using poll_loop_all_ok exhausted by blast
next
  case False
  define j where "j = (LEAST i. i < n \<and> kill_result e (tr @ polls (pid s) i) (pid s) SIG0 \<noteq> None)"
  from False have ex: "\<exists>i. i < n \<and> kill_result e (tr @ polls (pid s) i) (pid s) SIG0 \<noteq> None"
    by blast
  from LeastI_ex [OF ex] have j: "j < n" "kill_result e (tr @ polls (pid s) j) (pid s) SIG0 \<noteq> None"
    unfolding j_def by blast+
  have m: "\<forall>i<j. kill_result e (tr @ polls (pid s) i) (pid s) SIG0 = None"
  proof (intro allI impI)
    fix i assume ij: "i < j"
    with not_less_Least [of i "\<lambda>i. i < n \<and> kill_result e (tr @ polls (pid s) i) (pid s) SIG0 \<noteq> None"]
    have "\<not> (i < n \<and> kill_result e (tr @ polls (pid s) i) (pid s) SIG0 \<noteq> None)"
      unfolding j_def by blast
    with ij j(1) show "kill_result e (tr @ polls (pid s) i) (pid s) SIG0 = None" by simp
  qed
  from poll_loop_fail [OF j(1) m j(2)] j m broke show ?thesis by blast
qed

lemma polls_no_sigkill: "Kill p SIGKILL \<notin> set (polls p k)"
  by (induction k) (simp_all add: polls_0 polls_Suc)

lemma close_cases:
  fixes e s tr
  defines "T0 \<equiv> tr @ [Close (fd s)]"
  defines "T1 \<equiv> tr @ [Close (fd s), Kill (pid s) SIG0]"
  defines "T2 \<equiv> tr @ [Close (fd s), Kill (pid s) SIG0, Kill (pid s) SIGTERM]"
  obtains (dead) "kill_result e T0 (pid s) SIG0 \<noteq> None" "close e s tr = (Inr (), T1)"
  | (term_failed) "kill_result e T0 (pid s) SIG0 = None"
      "kill_result e T1 (pid s) SIGTERM \<noteq> None" "close e s tr = (Inr (), T2)"
  | (went) j where "kill_result e T0 (pid s) SIG0 = None"
      "kill_result e T1 (pid s) SIGTERM = None" "j < 10"
      "kill_result e (T2 @ polls (pid s) j) (pid s) SIG0 \<noteq> None"
      "close e s tr = (Inr (), T2 @ polls (pid s) j @ [Kill (pid s) SIG0])"
  | (killed) "kill_result e T0 (pid s) SIG0 = None"
      "kill_result e T1 (pid s) SIGTERM = None"
      "\<forall>i<10. kill_result e (T2 @ polls (pid s) i) (pid s) SIG0 = None"
      "close e s tr = (Inr (), T2 @ polls (pid s) 10 @ [Kill (pid s) SIGKILL])"
proof -
  have start: "close e s tr =
      (if kill_result e T0 (pid s) SIG0 = None then
         except_OSError
           (seq (os_kill e (pid s) SIGTERM)
              (\<lambda>_. seq (poll_loop e s 10)
                 (\<lambda>exhausted. if exhausted then os_kill e (pid s) SIGKILL else ret ())))
           (ret ()) T1
       else (Inr (), T1))"
    by (simp add: close_def seq_def close_fd_swallowed is_alive_eq ret_def T0_def T1_def)
  show ?thesis
  proof (cases "kill_result e T0 (pid s) SIG0 = None")
    case False
    with start dead show ?thesis by simp
  next
    case a: True
    show ?thesis
    proof (cases "kill_result e T1 (pid s) SIGTERM")
      case (Some x)
      then have "close e s tr = (Inr (), T2)"
        using start a by (simp add: except_OSError_def seq_def os_kill_def ret_def T1_def T2_def)
      with a Some term_failed show ?thesis by simp
    next
      case None
      have k: "os_kill e (pid s) SIGTERM T1 = (Inr (), T2)"
        using None by (simp add: os_kill_def T1_def T2_def)
      show ?thesis
      proof (cases rule: poll_loop_cases [where e = e and s = s and n = 10 and tr = T2])
        case exhausted
        have "close e s tr = (Inr (), T2 @ polls (pid s) 10 @ [Kill (pid s) SIGKILL])"
          using start a k exhausted(2)
          by (cases "kill_result e (T2 @ polls (pid s) 10) (pid s) SIGKILL")
             (simp_all add: except_OSError_def seq_def os_kill_def ret_def)
        with a None exhausted(1) killed show ?thesis by simp
      next
        case (broke j)
        have "close e s tr = (Inr (), T2 @ polls (pid s) j @ [Kill (pid s) SIG0])"
          using start a k broke(4) by (simp add: except_OSError_def seq_def ret_def)
        with a None broke went show ?thesis by simp
      qed
    qed
  qed
qed

lemma close_returns: "fst (close e s tr) = Inr ()"
  by (cases rule: close_cases [where e = e and s = s and tr = tr]) simp_all

lemma close_trace: "\<exists>ks. close e s tr = (Inr (), tr @ Close (fd s) # ks)"
  by (cases rule: close_cases [where e = e and s = s and tr = tr]) simp_all

lemma close_times_trace:
  "\<exists>ks. close_times e s n tr = (Inr (), tr @ ks) \<and> (0 < n \<longrightarrow> (\<exists>r. ks = Close (fd s) # r))"
proof (induction n arbitrary: tr)
  case 0
  show ?case by (simp add: ret_def)
next
  case (Suc n)
  from close_trace obtain ks where c: "close e s tr = (Inr (), tr @ Close (fd s) # ks)" by blast
  from Suc.IH [of "tr @ Close (fd s) # ks"] obtain r
    where "close_times e s n (tr @ Close (fd s) # ks) = (Inr (), (tr @ Close (fd s) # ks) @ r)"
    by blast
  with c have "close_times e s (Suc n) tr = (Inr (), tr @ Close (fd s) # (ks @ r))"
    by (simp add: seq_def)
  then show ?case by blast
qed

lemma freed_after_close:
  assumes "\<forall>h. Close f \<in> set h \<longrightarrow> close_result e h f \<noteq> None"
  shows "Close f \<in> set hist \<Longrightarrow> freed e f hist cs = 0"
proof (induction cs arbitrary: hist)
  case Nil
  show ?case by simp
next
  case (Cons c cs)
  then have "close_result e hist f \<noteq> None" using assms by blast
  moreover have "freed e f (hist @ [c]) cs = 0" using Cons by simp
  ultimately show ?case by simp
qed

lemma sigkill_sent_iff:
  "Kill (pid s) SIGKILL \<in> set (drop (length tr) (snd (close e s tr))) \<longleftrightarrow>
     kill_result e (tr @ [Close (fd s)]) (pid s) SIG0 = None
     \<and> kill_result e (tr @ [Close (fd s), Kill (pid s) SIG0]) (pid s) SIGTERM = None
     \<and> (\<forall>i<10. kill_result e
            ((tr @ [Close (fd s), Kill (pid s) SIG0, Kill (pid s) SIGTERM]) @ polls (pid s) i)
            (pid s) SIG0 = None)"
proof (cases rule: close_cases [where e = e and s = s and tr = tr])
  case dead
  then show ?thesis by simp
next
  case term_failed
  then show ?thesis by simp
next
  case (went j)
  then show ?thesis by (auto simp: polls_no_sigkill)
next
  case killed
  then show ?thesis by simp
qed

lemma sigkill_sent_trace:
  assumes "Kill (pid s) SIGKILL \<in> set (drop (length tr) (snd (close e s tr)))"
  shows "snd (close e s tr) =
       (tr @ [Close (fd s), Kill (pid s) SIG0, Kill (pid s) SIGTERM]) @ polls (pid s) 10
         @ [Kill (pid s) SIGKILL]"
proof (cases rule: close_cases [where e = e and s = s and tr = tr])
  case dead
  with assms show ?thesis by simp
next
  case term_failed
  with assms show ?thesis by simp
next
  case (went j)
  with assms show ?thesis by (auto simp: polls_no_sigkill)
next
  case killed
  then show ?thesis by simp
qed

lemma dict_pop_absent: "map_of d k = None \<Longrightarrow> filter (\<lambda>kv. fst kv \<noteq> k) d = d"
  by (induction d) (auto split: if_splits)

lemma map_of_removed: "map_of (filter (\<lambda>kv. fst kv \<noteq> k) d) k = None"
  by (induction d) auto

lemma map_of_kept: "k' \<noteq> k \<Longrightarrow> map_of (filter (\<lambda>kv. fst kv \<noteq> k) d) k' = map_of d k'"
  by (induction d) auto

lemma manager_close_eq:
  "manager_close e sid (m, tr) =
     (case get m sid of
        None \<Rightarrow> (Inr False, (m, tr))
      | Some s \<Rightarrow>
          (Inr True, (m\<lparr>sessions := filter (\<lambda>kv. fst kv \<noteq> sid) (sessions m)\<rparr>,
                      snd (close e s tr))))"
proof (cases "get m sid")
  case None
  then show ?thesis
    by (simp add: manager_close_def dict_pop_def get_def dict_pop_absent)
next
  case (Some s)
  from close_trace obtain ks where "close e s tr = (Inr (), tr @ Close (fd s) # ks)" by blast
  with Some show ?thesis
    by (simp add: manager_close_def dict_pop_def get_def seq_def on_trace_def ret_def)
qed

lemma read_loop_done:
  "\<not> reads < max_reads \<Longrightarrow> read_loop e timeout max_reads reads out (s, tr) = (Inr out, (s, tr))"
  by simp

lemma read_loop_poll_error:
  "reads < max_reads \<Longrightarrow> select_result e tr (fd s) = Inl x \<Longrightarrow>
     read_loop e timeout max_reads reads out (s, tr) =
       (Inl (OSError x), (s, tr @ [Select (fd s) timeout]))"
  by (simp add: select_select_def)

lemma read_loop_not_ready:
  "reads < max_reads \<Longrightarrow> select_result e tr (fd s) = Inr False \<Longrightarrow>
     read_loop e timeout max_reads reads out (s, tr) =
       (Inr out, (s, tr @ [Select (fd s) timeout]))"
  by (simp add: select_select_def)

lemma read_loop_read_error:
  "reads < max_reads \<Longrightarrow> select_result e tr (fd s) = Inr True \<Longrightarrow>
   read_result e (tr @ [Select (fd s) timeout]) (fd s) = Inl x \<Longrightarrow>
     read_loop e timeout max_reads reads out (s, tr) =
       (Inr out, (s, tr @ [Select (fd s) timeout, Read (fd s) 8192]))"
  by (simp add: select_select_def os_read_def)

lemma read_loop_eof:
  "reads < max_reads \<Longrightarrow> select_result e tr (fd s) = Inr True \<Longrightarrow>
   read_result e (tr @ [Select (fd s) timeout]) (fd s) = Inr data \<Longrightarrow> take 8192 data = [] \<Longrightarrow>
     read_loop e timeout max_reads reads out (s, tr) =
       (Inr out, (s, tr @ [Select (fd s) timeout, Read (fd s) 8192]))"
  by (simp add: select_select_def os_read_def)

lemma read_loop_chunk:
  "reads < max_reads \<Longrightarrow> select_result e tr (fd s) = Inr True \<Longrightarrow>
   read_result e (tr @ [Select (fd s) timeout]) (fd s) = Inr data \<Longrightarrow> take 8192 data \<noteq> [] \<Longrightarrow>
     read_loop e timeout max_reads reads out (s, tr) =
       read_loop e timeout max_reads (reads + 1) (out @ take 8192 data)
         (s\<lparr>fed := fed s @ [take 8192 data]\<rparr>, tr @ [Select (fd s) timeout, Read (fd s) 8192])"
  by (simp add: select_select_def os_read_def)

declare read_loop.simps [simp del]

lemma read_loop_inv:
  fixes e :: env and s :: session
  shows "nat (max_reads - reads) = n \<Longrightarrow>
     read_loop e timeout max_reads reads out (s, tr) = (r, (s', tr')) \<Longrightarrow>
     \<exists>new chunks. tr' = tr @ new \<and> s' = s\<lparr>fed := fed s @ chunks\<rparr>
       \<and> length (filter (\<lambda>c. c = Select (fd s) timeout) new) \<le> n
       \<and> length new \<le> 2 * n
       \<and> (\<forall>c\<in>set new. c = Select (fd s) timeout \<or> c = Read (fd s) 8192)
       \<and> (\<forall>c\<in>set chunks. length c \<le> 8192)
       \<and> (r = Inr (out @ concat chunks) \<or> (\<exists>x. r = Inl (OSError x)))"
proof (induction n arbitrary: reads out s tr)
  case 0
  then have "\<not> reads < max_reads" by simp
  from read_loop_done [OF this, where out = out and e = e and timeout = timeout and s = s and tr = tr] 0(2) have "r = Inr out" "s' = s" "tr' = tr" by simp_all
  then show ?case by (intro exI [of _ "[]"]) simp
next
  case (Suc n)
  then have lt: "reads < max_reads" by simp
  let ?sel = "Select (fd s) timeout" and ?rd = "Read (fd s) 8192"
  show ?case
  proof (cases "select_result e tr (fd s)")
    case (Inl x)
    from read_loop_poll_error [OF lt Inl, where out = out and timeout = timeout] Suc.prems(2)
    have "r = Inl (OSError x)" "s' = s" "tr' = tr @ [?sel]" by simp_all
    then show ?thesis by (intro exI [of _ "[?sel]"] exI [of _ "[]"]) simp
  next
    case (Inr ready)
    show ?thesis
    proof (cases ready)
      case False
      with Inr have "select_result e tr (fd s) = Inr False" by simp
      from read_loop_not_ready [OF lt this, where out = out and timeout = timeout] Suc.prems(2)
      have "r = Inr out" "s' = s" "tr' = tr @ [?sel]" by simp_all
      then show ?thesis by (intro exI [of _ "[?sel]"] exI [of _ "[]"]) simp
    next
      case True
      with Inr have rdy: "select_result e tr (fd s) = Inr True" by simp
      show ?thesis
      proof (cases "read_result e (tr @ [?sel]) (fd s)")
        case (Inl x)
        from read_loop_read_error [OF lt rdy Inl, where out = out] Suc.prems(2)
        have "r = Inr out" "s' = s" "tr' = tr @ [?sel, ?rd]" by simp_all
        then show ?thesis by (intro exI [of _ "[?sel, ?rd]"] exI [of _ "[]"]) simp
      next
        case (Inr data)
        show ?thesis
        proof (cases "take 8192 data = []")
          case True
          from read_loop_eof [OF lt rdy Inr True, where out = out] Suc.prems(2)
          have "r = Inr out" "s' = s" "tr' = tr @ [?sel, ?rd]" by simp_all
          then show ?thesis by (intro exI [of _ "[?sel, ?rd]"] exI [of _ "[]"]) simp
        next
          case False
          let ?chunk = "take 8192 data"
          let ?s1 = "s\<lparr>fed := fed s @ [?chunk]\<rparr>"
          from read_loop_chunk [OF lt rdy Inr False, where out = out] Suc.prems(2)
          have run: "read_loop e timeout max_reads (reads + 1) (out @ ?chunk)
                  (?s1, tr @ [?sel, ?rd]) = (r, (s', tr'))" by simp
          have "nat (max_reads - (reads + 1)) = n" using Suc.prems(1) by simp
          from Suc.IH [OF this run] obtain new chunks
            where tr': "tr' = (tr @ [?sel, ?rd]) @ new"
              and s': "s' = ?s1\<lparr>fed := fed ?s1 @ chunks\<rparr>"
              and cnt: "length (filter (\<lambda>c. c = Select (fd ?s1) timeout) new) \<le> n"
              and len: "length new \<le> 2 * n"
              and kinds: "\<forall>c\<in>set new. c = Select (fd ?s1) timeout \<or> c = Read (fd ?s1) 8192"
              and sizes: "\<forall>c\<in>set chunks. length c \<le> 8192"
              and res: "r = Inr ((out @ ?chunk) @ concat chunks) \<or> (\<exists>x. r = Inl (OSError x))"
            by blast
          have a: "tr' = tr @ ([?sel, ?rd] @ new)" using tr' by simp
          have b: "s' = s\<lparr>fed := fed s @ (?chunk # chunks)\<rparr>" using s' by simp
          have c: "length (filter (\<lambda>c. c = ?sel) ([?sel, ?rd] @ new)) \<le> Suc n"
            using cnt by simp
          have d: "length ([?sel, ?rd] @ new) \<le> 2 * Suc n" using len by simp
          have f: "\<forall>c\<in>set ([?sel, ?rd] @ new). c = ?sel \<or> c = ?rd" using kinds by simp
          have g: "\<forall>c\<in>set (?chunk # chunks). length c \<le> 8192" using sizes by simp
          have h: "r = Inr (out @ concat (?chunk # chunks)) \<or> (\<exists>x. r = Inl (OSError x))"
            using res by simp
          from a b c d f g h show ?thesis by blast
        qed
      qed
    qed
  qed
qed

lemma read_output_default_session:
  fixes e :: env and s :: session
  assumes "read_output_default e (s, tr) = (r, (s', tr'))"
  shows "\<exists>chunks. s' = s\<lparr>fed := fed s @ chunks\<rparr>"
proof -
  from assms have "read_loop e 100 100 0 [] (s, tr) = (r, (s', tr'))"
    by (simp add: read_output_default_def read_output_def)
  from read_loop_inv [OF refl this] show ?thesis by blast
qed

lemma capture_drain_raises:
  fixes e :: env and s :: session
  assumes "read_output_default e (s, tr) = (Inl ex, (s0, tr0))"
  shows "capture e (s, tr) = (Inl ex, (s0, tr0))"
  using assms by (simp add: capture_def seq_def)

lemma capture_render:
  fixes e :: env and s :: session
  assumes "read_output_default e (s, tr) = (Inr out, (s0, tr0))"
  shows "capture e (s, tr) =
     ((case render_result e tr0 (session_dir s @ [capture_name (capture_count s + 1)]) of
         Some ex \<Rightarrow> Inl ex
       | None \<Rightarrow>
           Inr \<lparr>cap_text = join_lines (map rstrip (display e (fed s0))),
                cap_ansi = join_lines (map rstrip (display e (fed s0))),
                cap_image_path = session_dir s @ [capture_name (capture_count s + 1)]\<rparr>),
      (s0\<lparr>capture_count := capture_count s + 1\<rparr>,
       tr0 @ [Render (session_dir s @ [capture_name (capture_count s + 1)])]))"
proof -
  from read_output_default_session [OF assms] obtain chunks
    where s0: "s0 = s\<lparr>fed := fed s @ chunks\<rparr>" by blast
  show ?thesis
    using assms
    by (cases "render_result e tr0 (session_dir s @ [capture_name (capture_count s + 1)])")
       (simp_all add: capture_def seq_def Let_def on_trace_def render_image_def ret_def s0)
qed

lemma capture_step:
  fixes e :: env and s :: session
  shows "\<exists>r s' tr'. capture e (s, tr) = (r, (s', tr'))
     \<and> session_dir s' = session_dir s
     \<and> capture_count s \<le> capture_count s' \<and> capture_count s' \<le> capture_count s + 1
     \<and> (\<forall>c. r = Inr c \<longrightarrow> capture_count s' = capture_count s + 1
            \<and> cap_image_path c = session_dir s @ [capture_name (capture_count s')])
     \<and> (\<forall>ex. fst (read_output_default e (s, tr)) = Inl ex \<longrightarrow>
            r = Inl ex \<and> capture_count s' = capture_count s)
     \<and> (\<forall>out. fst (read_output_default e (s, tr)) = Inr out \<longrightarrow>
            capture_count s' = capture_count s + 1)"
proof -
  obtain r0 s0 tr0 where d: "read_output_default e (s, tr) = (r0, (s0, tr0))"
    by (metis prod.exhaust)
  from read_output_default_session [OF d] obtain chunks
    where s0: "s0 = s\<lparr>fed := fed s @ chunks\<rparr>" by blast
  show ?thesis
  proof (cases r0)
    case (Inl ex)
    with d capture_drain_raises [of e s tr ex s0 tr0] s0 show ?thesis by simp
  next
    case (Inr out)
    with d capture_render [of e s tr out s0 tr0] s0 show ?thesis
      by (cases "render_result e tr0 (session_dir s @ [capture_name (capture_count s + 1)])")
         simp_all
  qed
qed

lemma captures_monotone:
  fixes e :: env and s :: session
  shows "captures e n (s, tr) = (rs, (s', tr')) \<Longrightarrow>
     capture_count s \<le> capture_count s' \<and> session_dir s' = session_dir s"
proof (induction n arbitrary: s tr rs)
  case 0
  then show ?case by simp
next
  case (Suc n)
  from capture_step [of e s tr] obtain r s1 tr1
    where c: "capture e (s, tr) = (r, (s1, tr1))" and d: "session_dir s1 = session_dir s"
      and m: "capture_count s \<le> capture_count s1" by blast
  obtain rs1 st2 where r: "captures e n (s1, tr1) = (rs1, st2)" by (metis prod.exhaust)
  with Suc.prems c have "st2 = (s', tr')" by simp
  with r Suc.IH [of s1 tr1 rs1] d m show ?case by simp
qed

lemma captures_all_ok:
  fixes e :: env and s :: session
  shows "captures e n (s, tr) = (rs, (s', tr')) \<Longrightarrow> \<forall>r\<in>set rs. \<exists>c. r = Inr c \<Longrightarrow> i < n \<Longrightarrow>
     \<exists>c. rs ! i = Inr c
       \<and> cap_image_path c = session_dir s @ [capture_name (capture_count s + int i + 1)]"
proof (induction n arbitrary: s tr rs i)
  case 0
  then show ?case by simp
next
  case (Suc n)
  from capture_step [of e s tr] obtain r s1 tr1
    where c: "capture e (s, tr) = (r, (s1, tr1))" and d: "session_dir s1 = session_dir s"
      and ok: "\<forall>c. r = Inr c \<longrightarrow> capture_count s1 = capture_count s + 1
            \<and> cap_image_path c = session_dir s @ [capture_name (capture_count s1)]"
    by blast
  obtain rs1 st2 where r: "captures e n (s1, tr1) = (rs1, st2)" by (metis prod.exhaust)
  with Suc.prems(1) c have rs: "rs = r # rs1" and st: "st2 = (s', tr')" by simp_all
  from Suc.prems(2) rs obtain c0 where c0: "r = Inr c0" by auto
  with ok have cnt: "capture_count s1 = capture_count s + 1"
    and p0: "cap_image_path c0 = session_dir s @ [capture_name (capture_count s + 1)]"
    by simp_all
  show ?case
  proof (cases i)
    case 0
    with rs c0 p0 show ?thesis by simp
  next
    case (Suc j)
    with Suc.prems(3) have j: "j < n" by simp
    from Suc.prems(2) rs have all: "\<forall>r\<in>set rs1. \<exists>c. r = Inr c" by simp
    from r st have "captures e n (s1, tr1) = (rs1, (s', tr'))" by simp
    from Suc.IH [OF this all j] obtain c
      where "rs1 ! j = Inr c"
        "cap_image_path c = session_dir s1 @ [capture_name (capture_count s1 + int j + 1)]"
      by blast
    with rs Suc d cnt show ?thesis by (simp add: add.commute add.left_commute)
  qed
qed

lemma send_keeps_count:
  fixes e :: env and s :: session
  shows "capture_count (fst (snd (send e data wait_ms (s, tr)))) = capture_count s"
proof (cases "write_result e tr (fd s) data")
  case (Some x)
  then show ?thesis by (simp add: send_def seq_def on_trace_def os_write_def)
next
  case None
  let ?tr = "tr @ [Write (fd s) data, Sleep (nat wait_ms)]"
  obtain r s' tr' where d: "read_output_default e (s, ?tr) = (r, (s', tr'))"
    by (metis prod.exhaust)
  from read_output_default_session [OF d] have "capture_count s' = capture_count s" by auto
  with None d show ?thesis
    by (cases r) (simp_all add: send_def seq_def on_trace_def os_write_def time_sleep_def ret_def)
qed

lemma read_output_keeps_count:
  fixes e :: env and s :: session
  shows "capture_count (fst (snd (read_output e timeout max_reads (s, tr)))) = capture_count s"
proof -
  obtain r s' tr' where d: "read_loop e timeout max_reads 0 [] (s, tr) = (r, (s', tr'))"
    by (metis prod.exhaust)
  from read_loop_inv [OF refl d] have "capture_count s' = capture_count s" by auto
  with d show ?thesis by (simp add: read_output_def)
qed

lemma capture_name_examples:
  "capture_name 1 = str ''capture_0001.png''" "capture_name 2 = str ''capture_0002.png''"
  "capture_name 12 = str ''capture_0012.png''"
  by (simp_all add: capture_name_def format_04d_def zfill_def digits.simps str_def
        numeral_3_eq_3 numeral_2_eq_2)

lemma read_output_default_quiet:
  "select_result e tr (fd s) = Inr False \<Longrightarrow>
     read_output_default e (s, tr) = (Inr [], (s, tr @ [Select (fd s) 100]))"
  by (simp add: read_output_default_def read_output_def read_loop_not_ready)

lemma scan_dead_eq:
  "scan_dead e items tr = (Inr (map fst (found_dead e items tr)), tr @ probes items)"
proof (induction items arbitrary: tr)
  case Nil
  show ?case by (simp add: ret_def probes_def)
next
  case (Cons kv items)
  obtain sid s where kv: "kv = (sid, s)" by (cases kv)
  show ?case
    by (simp add: kv seq_def is_alive_eq Cons.IH ret_def probes_def)
qed

lemma found_dead_subset: "set (found_dead e items tr) \<subseteq> set items"
  by (induction items arbitrary: tr) auto

lemma found_dead_distinct:
  "distinct (map fst items) \<Longrightarrow> distinct (map fst (found_dead e items tr))"
proof (induction items arbitrary: tr)
  case Nil
  show ?case by simp
next
  case (Cons kv items)
  have "fst ` set (found_dead e items (snd (is_alive e (snd kv) tr))) \<subseteq> fst ` set items"
    using found_dead_subset by blast
  with Cons show ?case by auto
qed

lemma found_dead_index:
  "distinct (map fst items) \<Longrightarrow> i < length items \<Longrightarrow>
     items ! i \<in> set (found_dead e items tr) \<longleftrightarrow>
       fst (is_alive e (snd (items ! i)) (tr @ probes (take i items))) = Inr False"
proof (induction items arbitrary: tr i)
  case Nil
  then show ?case by simp
next
  case (Cons kv items)
  let ?tr = "snd (is_alive e (snd kv) tr)"
  have tr1: "?tr = tr @ [Kill (pid (snd kv)) SIG0]" by (simp add: is_alive_eq)
  have sub: "set (found_dead e items ?tr) \<subseteq> set items" by (rule found_dead_subset)
  from Cons.prems(1) have notin: "kv \<notin> set items" by (auto simp: image_iff)
  show ?case
  proof (cases i)
    case 0
    with sub notin show ?thesis by (auto simp: probes_def)
  next
    case (Suc j)
    with Cons.prems have j: "j < length items" and d: "distinct (map fst items)" by simp_all
    from j have "items ! j \<in> set items" by simp
    with notin have ne: "items ! j \<noteq> kv" by auto
    from Cons.IH [OF d j, of ?tr] Suc ne show ?thesis
      by (simp add: tr1 probes_def)
  qed
qed

lemma get_member:
  "distinct (map fst d) \<Longrightarrow> (k, v) \<in> set d \<Longrightarrow> map_of d k = Some v"
  by simp

lemma close_each_eq:
  fixes e :: env and m :: manager
  shows "distinct (map fst dead) \<Longrightarrow> set dead \<subseteq> set (sessions m) \<Longrightarrow>
     distinct (map fst (sessions m)) \<Longrightarrow>
     close_each e (map fst dead) (m, tr) =
       (Inr (), (m\<lparr>sessions := filter (\<lambda>kv. fst kv \<notin> set (map fst dead)) (sessions m)\<rparr>,
                 close_all e dead tr))"
proof (induction dead arbitrary: m tr)
  case Nil
  show ?case by (simp add: ret_def close_all_def)
next
  case (Cons kv dead)
  obtain sid s where kv: "kv = (sid, s)" by (cases kv)
  from Cons.prems kv have g: "get m sid = Some s" by (simp add: get_def)
  let ?m = "m\<lparr>sessions := filter (\<lambda>kv. fst kv \<noteq> sid) (sessions m)\<rparr>"
  have step: "manager_close e sid (m, tr) = (Inr True, (?m, snd (close e s tr)))"
    by (simp add: manager_close_eq g)
  have d1: "distinct (map fst dead)" using Cons.prems(1) by simp
  have d2: "set dead \<subseteq> set (sessions ?m)"
  proof
    fix x assume x: "x \<in> set dead"
    with Cons.prems(1) kv have "fst x \<noteq> sid" by (auto simp: image_iff)
    with x Cons.prems(2) show "x \<in> set (sessions ?m)" by auto
  qed
  have d3: "distinct (map fst (sessions ?m))"
    using Cons.prems(3) by (simp add: distinct_map_filter)
  have f: "filter (\<lambda>kv. fst kv \<notin> set (map fst dead)) (filter (\<lambda>kv. fst kv \<noteq> sid) (sessions m)) =
      filter (\<lambda>kv. fst kv \<notin> set (map fst ((sid, s) # dead))) (sessions m)"
    by (induction "sessions m") auto
  from Cons.IH [OF d1 d2 d3, of "snd (close e s tr)"] step show ?case
    by (simp add: kv seq_def close_all_def f)
qed

lemma map_of_filter_keys:
  "map_of (filter (\<lambda>kv. fst kv \<notin> K) d) k = (if k \<in> K then None else map_of d k)"
  by (induction d) auto

lemma in_dead_iff_key:
  assumes "distinct (map fst items)" and "set dead \<subseteq> set items" and "kv \<in> set items"
  shows "kv \<in> set dead \<longleftrightarrow> fst kv \<in> set (map fst dead)"
proof
  assume "kv \<in> set dead"
  then show "fst kv \<in> set (map fst dead)" by simp
next
  assume "fst kv \<in> set (map fst dead)"
  then obtain kv' where k: "kv' \<in> set dead" "fst kv' = fst kv" by auto
  with assms(2) have "kv' \<in> set items" by blast
  with assms(1,3) k(2) have "kv' = kv"
    by (metis eq_key_imp_eq_value prod.collapse)
  with k(1) show "kv \<in> set dead" by simp
qed

lemma removed_count:
  assumes "distinct (map fst items)" and "set dead \<subseteq> set items" and "distinct (map fst dead)"
  shows "length (filter (\<lambda>kv. fst kv \<notin> set (map fst dead)) items) + length dead = length items"
proof -
  let ?in = "filter (\<lambda>kv. fst kv \<in> set (map fst dead)) items"
  have "set ?in = set dead"
    using in_dead_iff_key [OF assms(1,2)] assms(2) by auto
  moreover have "distinct ?in" using assms(1) by (simp add: distinct_map distinct_filter)
  moreover have "distinct dead" using assms(3) by (simp add: distinct_map)
  ultimately have "length ?in = length dead" by (metis distinct_card)
  moreover have "length ?in + length (filter (\<lambda>kv. fst kv \<notin> set (map fst dead)) items) = length items"
    using sum_length_filter_compl [of "\<lambda>kv. fst kv \<in> set (map fst dead)" items] by simp
  ultimately show ?thesis by simp
qed

lemma close_all_trace:
  fixes e :: env
  shows "\<exists>ks. close_all e dead tr = tr @ ks \<and> (\<forall>kv\<in>set dead. Close (fd (snd kv)) \<in> set ks)"
proof (induction dead arbitrary: tr)
  case Nil
  show ?case by (simp add: close_all_def)
next
  case (Cons kv dead)
  from close_trace [of e "snd kv" tr] obtain ks
    where c: "snd (close e (snd kv) tr) = tr @ Close (fd (snd kv)) # ks" by auto
  from Cons.IH [of "tr @ Close (fd (snd kv)) # ks"] obtain ks'
    where r: "close_all e dead (tr @ Close (fd (snd kv)) # ks) = (tr @ Close (fd (snd kv)) # ks) @ ks'"
      and a: "\<forall>kv\<in>set dead. Close (fd (snd kv)) \<in> set ks'" by blast
  have "close_all e (kv # dead) tr = tr @ (Close (fd (snd kv)) # ks @ ks')"
    using c r by (simp add: close_all_def)
  moreover have "\<forall>x\<in>set (kv # dead). Close (fd (snd x)) \<in> set (Close (fd (snd kv)) # ks @ ks')"
    using a by auto
  ultimately show ?case by blast
qed

lemma polls_no_close: "Close f \<notin> set (polls p k)"
  by (induction k) (simp_all add: polls_0 polls_Suc)

lemma close_new_calls:
  fixes e :: env and s :: session
  shows "\<exists>ks. close e s tr = (Inr (), tr @ Close (fd s) # ks) \<and> (\<forall>c\<in>set ks. c \<noteq> Close f)"
  by (cases rule: close_cases [where e = e and s = s and tr = tr])
     (auto simp: polls_no_close)

lemma freed_append: "freed e f h (a @ b) = freed e f h a + freed e f (h @ a) b"
  by (induction a arbitrary: h) simp_all

lemma freed_no_close: "\<forall>c\<in>set cs. c \<noteq> Close f \<Longrightarrow> freed e f h cs = 0"
  by (induction cs arbitrary: h) simp_all

lemma freed_close_times:
  fixes e :: env and s :: session
  shows "freed e (fd s) tr (drop (length tr) (snd (close_times e s n tr))) =
     length (filter (\<lambda>k. close_result e (snd (close_times e s k tr)) (fd s) = None) [0..<n])"
proof (induction n arbitrary: tr)
  case 0
  show ?case by (simp add: ret_def)
next
  case (Suc n)
  from close_new_calls [of e s tr "fd s"] obtain ks
    where c: "close e s tr = (Inr (), tr @ Close (fd s) # ks)"
      and nc: "\<forall>c\<in>set ks. c \<noteq> Close (fd s)" by blast
  let ?tr1 = "tr @ Close (fd s) # ks"
  have step: "close_times e s (Suc k) tr = close_times e s k ?tr1" for k
    using c by (simp add: seq_def)
  from close_times_trace [of e s n ?tr1] obtain X
    where x: "close_times e s n ?tr1 = (Inr (), ?tr1 @ X)" by blast
  have new: "drop (length tr) (snd (close_times e s (Suc n) tr)) = Close (fd s) # ks @ X"
    by (simp add: step x del: close_times.simps(2))
  have "freed e (fd s) ((tr @ [Close (fd s)]) @ ks) X = freed e (fd s) ?tr1 X" by simp
  moreover have "freed e (fd s) (tr @ [Close (fd s)]) ks = 0"
    by (rule freed_no_close [OF nc])
  ultimately have f: "freed e (fd s) tr (Close (fd s) # ks @ X) =
      (if close_result e tr (fd s) = None then 1 else 0) + freed e (fd s) ?tr1 X"
    by (simp add: freed_append)
  have ih: "freed e (fd s) ?tr1 X =
      length (filter (\<lambda>k. close_result e (snd (close_times e s k ?tr1)) (fd s) = None) [0..<n])"
    using Suc.IH [of ?tr1] x by simp
  have upt: "[0..<Suc n] = 0 # map Suc [0..<n]"
    by (simp add: upt_conv_Cons map_Suc_upt del: upt_Suc)
  have z: "snd (close_times e s 0 tr) = tr" by (simp add: ret_def)
  have "length (filter (\<lambda>k. close_result e (snd (close_times e s k tr)) (fd s) = None) [0..<Suc n]) =
      (if close_result e tr (fd s) = None then 1 else 0)
      + length (filter (\<lambda>k. close_result e (snd (close_times e s k ?tr1)) (fd s) = None) [0..<n])"
    unfolding upt by (simp add: filter_map o_def step z del: close_times.simps)
  with new f ih show ?case by (simp del: close_times.simps)
qed

text \<open>
  The sweep as one equation, on a registry (a dictionary: distinct ids): \<open>cleanup_dead\<close>
  probes every tracked session once, in order, and destroys those whose \<open>is_alive\<close> answered
  \<open>False\<close> at its probe; each of them is removed from the map and its \<open>close\<close> runs. The
  result is their number. The entries whose \<open>is_alive\<close> answered \<open>True\<close> stay as they were.
\<close>

lemma cleanup_dead_sweeps:
  fixes e :: env and m :: manager
  shows "distinct (map fst (sessions m)) \<longrightarrow>
    (let dead = found_dead e (sessions m) tr;
         m' = m\<lparr>sessions := filter (\<lambda>kv. fst kv \<notin> set (map fst dead)) (sessions m)\<rparr>;
         tr' = close_all e dead (tr @ probes (sessions m))
     in cleanup_dead e (m, tr) = (Inr (int (length dead)), (m', tr'))
        \<and> length (sessions m') + length dead = length (sessions m)
        \<and> (\<forall>i<length (sessions m).
              sessions m ! i \<in> set dead \<longleftrightarrow>
                fst (is_alive e (snd (sessions m ! i)) (tr @ probes (take i (sessions m)))) = Inr False)
        \<and> (\<forall>kv\<in>set (sessions m).
              get m' (fst kv) = (if kv \<in> set dead then None else Some (snd kv)))
        \<and> (\<forall>kv\<in>set dead. Close (fd (snd kv)) \<in> set (drop (length (tr @ probes (sessions m))) tr')))"
proof
  assume dist: "distinct (map fst (sessions m))"
  let ?items = "sessions m"
  let ?dead = "found_dead e ?items tr"
  let ?m' = "m\<lparr>sessions := filter (\<lambda>kv. fst kv \<notin> set (map fst ?dead)) ?items\<rparr>"
  let ?tr1 = "tr @ probes ?items"
  let ?tr' = "close_all e ?dead ?tr1"
  have sub: "set ?dead \<subseteq> set ?items" by (rule found_dead_subset)
  have dd: "distinct (map fst ?dead)" by (rule found_dead_distinct [OF dist])
  have a: "cleanup_dead e (m, tr) = (Inr (int (length ?dead)), (?m', ?tr'))"
    by (simp add: cleanup_dead_def seq_def on_trace_def scan_dead_eq
          close_each_eq [OF dd sub dist] ret_def)
  have b: "length (sessions ?m') + length ?dead = length ?items"
    using removed_count [OF dist sub dd] by simp
  have c: "\<forall>i<length ?items.
              ?items ! i \<in> set ?dead \<longleftrightarrow>
                fst (is_alive e (snd (?items ! i)) (tr @ probes (take i ?items))) = Inr False"
    using found_dead_index [OF dist] by blast
  have d: "\<forall>kv\<in>set ?items. get ?m' (fst kv) = (if kv \<in> set ?dead then None else Some (snd kv))"
  proof
    fix kv assume kv: "kv \<in> set ?items"
    then have "map_of ?items (fst kv) = Some (snd kv)" using dist by simp
    with in_dead_iff_key [OF dist sub kv]
    show "get ?m' (fst kv) = (if kv \<in> set ?dead then None else Some (snd kv))"
      by (simp add: get_def map_of_filter_keys)
  qed
  from close_all_trace [of e ?dead ?tr1]
  have f: "\<forall>kv\<in>set ?dead. Close (fd (snd kv)) \<in> set (drop (length ?tr1) ?tr')" by auto
  from a b c d f
  show "let dead = found_dead e (sessions m) tr;
         m' = m\<lparr>sessions := filter (\<lambda>kv. fst kv \<notin> set (map fst dead)) (sessions m)\<rparr>;
         tr' = close_all e dead (tr @ probes (sessions m))
     in cleanup_dead e (m, tr) = (Inr (int (length dead)), (m', tr'))
        \<and> length (sessions m') + length dead = length (sessions m)
        \<and> (\<forall>i<length (sessions m).
              sessions m ! i \<in> set dead \<longleftrightarrow>
                fst (is_alive e (snd (sessions m ! i)) (tr @ probes (take i (sessions m)))) = Inr False)
        \<and> (\<forall>kv\<in>set (sessions m).
              get m' (fst kv) = (if kv \<in> set dead then None else Some (snd kv)))
        \<and> (\<forall>kv\<in>set dead. Close (fd (snd kv)) \<in> set (drop (length (tr @ probes (sessions m))) tr'))"
    unfolding Let_def by (intro conjI)
qed

section \<open>Properties of sessions and the registry\<close>

text \<open>
  C1, as the claim states it, fails in its second part: \<open>close\<close> keeps no record of having
  closed the descriptor and asks the system to close the same number at every call. When
  the number has been handed out again in between, two calls of \<open>close\<close> free it twice;
  neither call raises.
\<close>

theorem close_frees_twice_counterexample:
  "fst (close_times reissued_env dead_session 2 []) = Inr ()
   \<and> snd (close_times reissued_env dead_session 2 []) =
       [Close 8, Kill 99 SIG0, Close 8, Kill 99 SIG0]
   \<and> freed reissued_env 8 [] [Close 8, Kill 99 SIG0, Close 8, Kill 99 SIG0] = 2"
proof -
  have p: "pid dead_session = 99" "fd dead_session = 8"
    by (simp_all add: dead_session_def TUISession_def)
  have k: "kill_result reissued_env t 99 sg = Some ESRCH" for t sg
    by (simp add: reissued_env_def one_dead_env_def)
  have c: "close_result reissued_env t f = None" for t f
    by (simp add: reissued_env_def)
  have cl: "close reissued_env dead_session t = (Inr (), t @ [Close 8, Kill 99 SIG0])" for t
    by (simp add: close_def seq_def except_OSError_def os_close_def is_alive_def os_kill_def
          ret_def p k c)
  have "close_times reissued_env dead_session 2 [] =
      (Inr (), [Close 8, Kill 99 SIG0, Close 8, Kill 99 SIG0])"
    by (simp add: numeral_2_eq_2 seq_def cl ret_def)
  then show ?thesis by (simp add: c)
qed

text \<open>
  C1, amended. Whatever the operating system answers, \<open>close\<close> returns without raising, also
  when closing the descriptor fails because it is closed already; so does any number of
  calls in a row. Every call asks the system once to close the stored descriptor number, so
  that \<open>n\<close> calls in a row free it as many times as the system accepts that request, at the
  start of each call; when the system refuses to close a number that was closed before,
  that is once, by the first call, and never again. \<open>SIGKILL\<close> is sent exactly when the
  first probe found the process, \<open>SIGTERM\<close> was delivered and each of the ten polls that
  follow, 100 ms apart, still found it; the calls made are then the close, the probe,
  \<open>SIGTERM\<close>, the ten polls with their sleeps, and \<open>SIGKILL\<close>.
\<close>

theorem close_never_raises:
  fixes e :: env and s :: session
  shows "fst (close e s tr) = Inr ()
   \<and> fst (close_times e s n tr) = Inr ()
   \<and> freed e (fd s) tr (drop (length tr) (snd (close_times e s n tr))) =
       length (filter (\<lambda>k. close_result e (snd (close_times e s k tr)) (fd s) = None) [0..<n])
   \<and> ((\<forall>h. Close (fd s) \<in> set h \<longrightarrow> close_result e h (fd s) \<noteq> None) \<longrightarrow>
        freed e (fd s) tr (drop (length tr) (snd (close_times e s n tr))) =
          (if 0 < n \<and> close_result e tr (fd s) = None then 1 else 0))
   \<and> (Kill (pid s) SIGKILL \<in> set (drop (length tr) (snd (close e s tr))) \<longleftrightarrow>
        kill_result e (tr @ [Close (fd s)]) (pid s) SIG0 = None
        \<and> kill_result e (tr @ [Close (fd s), Kill (pid s) SIG0]) (pid s) SIGTERM = None
        \<and> (\<forall>i<10. kill_result e
               ((tr @ [Close (fd s), Kill (pid s) SIG0, Kill (pid s) SIGTERM]) @ polls (pid s) i)
               (pid s) SIG0 = None))
   \<and> (Kill (pid s) SIGKILL \<in> set (drop (length tr) (snd (close e s tr))) \<longrightarrow>
        snd (close e s tr) =
          (tr @ [Close (fd s), Kill (pid s) SIG0, Kill (pid s) SIGTERM]) @ polls (pid s) 10
            @ [Kill (pid s) SIGKILL])"
proof (intro conjI impI)
  show "fst (close e s tr) = Inr ()" by (rule close_returns)
next
  from close_times_trace [of e s n tr] show "fst (close_times e s n tr) = Inr ()" by auto
next
  show "freed e (fd s) tr (drop (length tr) (snd (close_times e s n tr))) =
       length (filter (\<lambda>k. close_result e (snd (close_times e s k tr)) (fd s) = None) [0..<n])"
    by (rule freed_close_times)
next
  assume os: "\<forall>h. Close (fd s) \<in> set h \<longrightarrow> close_result e h (fd s) \<noteq> None"
  from close_times_trace [of e s n tr] obtain ks
    where t: "close_times e s n tr = (Inr (), tr @ ks)"
      and k: "0 < n \<longrightarrow> (\<exists>r. ks = Close (fd s) # r)" by blast
  show "freed e (fd s) tr (drop (length tr) (snd (close_times e s n tr))) =
          (if 0 < n \<and> close_result e tr (fd s) = None then 1 else 0)"
  proof (cases n)
    case 0
    with t show ?thesis by (simp add: ret_def)
  next
    case (Suc n')
    with k obtain r where r: "ks = Close (fd s) # r" by auto
    have "freed e (fd s) (tr @ [Close (fd s)]) r = 0"
      by (rule freed_after_close [OF os]) simp
    with t r Suc show ?thesis by simp
  qed
next
  show "Kill (pid s) SIGKILL \<in> set (drop (length tr) (snd (close e s tr))) \<longleftrightarrow>
        kill_result e (tr @ [Close (fd s)]) (pid s) SIG0 = None
        \<and> kill_result e (tr @ [Close (fd s), Kill (pid s) SIG0]) (pid s) SIGTERM = None
        \<and> (\<forall>i<10. kill_result e
               ((tr @ [Close (fd s), Kill (pid s) SIG0, Kill (pid s) SIGTERM]) @ polls (pid s) i)
               (pid s) SIG0 = None)"
    by (rule sigkill_sent_iff)
next
  assume "Kill (pid s) SIGKILL \<in> set (drop (length tr) (snd (close e s tr)))"
  then show "snd (close e s tr) =
          (tr @ [Close (fd s), Kill (pid s) SIG0, Kill (pid s) SIGTERM]) @ polls (pid s) 10
            @ [Kill (pid s) SIGKILL]"
    by (rule sigkill_sent_trace)
qed

theorem close_never_raises_witness:
  "fst (close_times quiet_env demo_session 2 []) = Inr ()
   \<and> freed quiet_env 7 [] (snd (close_times quiet_env demo_session 2 [])) = 1
   \<and> Kill 4242 SIGKILL \<in> set (snd (close quiet_env demo_session []))
   \<and> snd (close quiet_env demo_session []) =
       [Close 7, Kill 4242 SIG0, Kill 4242 SIGTERM] @ polls 4242 10 @ [Kill 4242 SIGKILL]"
proof -
  have f: "fd demo_session = 7" and p: "pid demo_session = 4242"
    by (simp_all add: demo_session_def TUISession_def)
  have os: "\<forall>h. Close (fd demo_session) \<in> set h \<longrightarrow>
      close_result quiet_env h (fd demo_session) \<noteq> None"
    by (simp add: quiet_env_def)
  have c0: "close_result quiet_env [] (fd demo_session) = None"
    by (simp add: quiet_env_def)
  have k: "kill_result quiet_env h q sg = None" for h q sg
    by (simp add: quiet_env_def)
  note inst = close_never_raises [of quiet_env demo_session "[]" 2]
  from inst have a: "fst (close_times quiet_env demo_session 2 []) = Inr ()" by blast
  from inst os c0 have b: "freed quiet_env 7 [] (snd (close_times quiet_env demo_session 2 [])) = 1"
    by (simp add: f)
  from inst k have c: "Kill 4242 SIGKILL \<in> set (snd (close quiet_env demo_session []))"
    by (simp add: p)
  with inst have d: "snd (close quiet_env demo_session []) =
       [Close 7, Kill 4242 SIG0, Kill 4242 SIGTERM] @ polls 4242 10 @ [Kill 4242 SIGKILL]"
    by (simp add: f p)
  from a b c d show ?thesis by (intro conjI)
qed

text \<open>
  C3. The claim holds that a probe refused for lack of permission means the process is
  alive. The code answers otherwise: with \<open>EPERM\<close> from \<open>os.kill(pid, 0)\<close>, \<open>is_alive\<close>
  returns \<open>False\<close>, as it does for every \<open>OSError\<close>.
\<close>

theorem is_alive_permission_denied:
  "is_alive (quiet_env\<lparr>kill_result := \<lambda>tr p sg. Some EPERM\<rparr>) demo_session [] =
     (Inr False, [Kill 4242 SIG0])"
  by (simp add: is_alive_def except_OSError_def seq_def os_kill_def ret_def quiet_env_def
        demo_session_def TUISession_def)

text \<open>
  C6. \<open>SessionManager.close\<close> returns \<open>True\<close> exactly when the id was in the map; the
  entry is then removed, so that a lookup of the id finds nothing, and the session's
  \<open>close\<close> has run on the trace. On an absent id nothing changes and the result is
  \<open>False\<close>, not an exception. The other entries stay as they were.
\<close>

theorem manager_close_destroys:
  fixes e :: env and m :: manager
  shows "manager_close e sid (m, tr) =
     (case get m sid of
        None \<Rightarrow> (Inr False, (m, tr))
      | Some s \<Rightarrow>
          (Inr True, (m\<lparr>sessions := filter (\<lambda>kv. fst kv \<noteq> sid) (sessions m)\<rparr>,
                      snd (close e s tr))))
   \<and> fst (manager_close e sid (m, tr)) = Inr (get m sid \<noteq> None)
   \<and> get (fst (snd (manager_close e sid (m, tr)))) sid = None
   \<and> (k \<noteq> sid \<longrightarrow> get (fst (snd (manager_close e sid (m, tr)))) k = get m k)"
proof (cases "get m sid")
  case None
  then show ?thesis by (simp add: manager_close_eq)
next
  case (Some s)
  then show ?thesis
    by (simp add: manager_close_eq) (simp add: get_def map_of_removed map_of_kept)
qed

theorem manager_close_destroys_witness:
  "str ''zz'' \<noteq> str ''ab12cd34''
   \<and> fst (manager_close quiet_env (str ''ab12cd34'')
          (\<lparr>base_dir = [str ''tmp''], sessions = [(str ''ab12cd34'', demo_session)]\<rparr>, [])) = Inr True
   \<and> get (fst (snd (manager_close quiet_env (str ''ab12cd34'')
          (\<lparr>base_dir = [str ''tmp''], sessions = [(str ''ab12cd34'', demo_session)]\<rparr>, []))))
         (str ''zz'') = None"
proof -
  let ?m = "\<lparr>base_dir = [str ''tmp''], sessions = [(str ''ab12cd34'', demo_session)]\<rparr>"
  have n: "str ''zz'' \<noteq> str ''ab12cd34''" by (simp add: str_def)
  have g: "get ?m (str ''ab12cd34'') = Some demo_session" "get ?m (str ''zz'') = None"
    by (simp_all add: get_def str_def)
  from manager_close_destroys [of quiet_env "str ''ab12cd34''" ?m "[]" "str ''zz''"] n g
  show ?thesis by (simp add: get_def)
qed

text \<open>
  C2. A drain returns, whatever the child process writes: it makes at most \<open>max_reads\<close>
  polls and at most twice as many calls in all, every read asks for 8192 bytes and every
  chunk it gets is at most that long, and the result is the chunks read, or the exception of
  a poll that raised. The loop stops at once when the iteration cap is reached, when a poll
  reports nothing ready, when a read returns no bytes, and when a read raises \<open>OSError\<close>.
\<close>

theorem read_output_bounded:
  fixes e :: env and s :: session
  shows
  "(\<exists>r new chunks.
      read_output e timeout max_reads (s, tr) = (r, (s\<lparr>fed := fed s @ chunks\<rparr>, tr @ new))
      \<and> length (filter (\<lambda>c. c = Select (fd s) timeout) new) \<le> nat max_reads
      \<and> length new \<le> 2 * nat max_reads
      \<and> (\<forall>c\<in>set new. c = Select (fd s) timeout \<or> c = Read (fd s) 8192)
      \<and> (\<forall>c\<in>set chunks. length c \<le> 8192)
      \<and> (r = Inr (concat chunks) \<or> (\<exists>x. r = Inl (OSError x))))
   \<and> (\<not> reads < max_reads \<longrightarrow>
        read_loop e timeout max_reads reads out (s, tr) = (Inr out, (s, tr)))
   \<and> (reads < max_reads \<and> select_result e tr (fd s) = Inr False \<longrightarrow>
        read_loop e timeout max_reads reads out (s, tr) =
          (Inr out, (s, tr @ [Select (fd s) timeout])))
   \<and> (reads < max_reads \<and> select_result e tr (fd s) = Inr True
        \<and> read_result e (tr @ [Select (fd s) timeout]) (fd s) = Inr [] \<longrightarrow>
        read_loop e timeout max_reads reads out (s, tr) =
          (Inr out, (s, tr @ [Select (fd s) timeout, Read (fd s) 8192])))
   \<and> (reads < max_reads \<and> select_result e tr (fd s) = Inr True
        \<and> read_result e (tr @ [Select (fd s) timeout]) (fd s) = Inl x \<longrightarrow>
        read_loop e timeout max_reads reads out (s, tr) =
          (Inr out, (s, tr @ [Select (fd s) timeout, Read (fd s) 8192])))"
proof (intro conjI impI)
  obtain r s' tr' where run: "read_loop e timeout max_reads 0 [] (s, tr) = (r, (s', tr'))"
    by (metis prod.exhaust)
  have "nat (max_reads - 0) = nat max_reads" by simp
  from read_loop_inv [OF this run] run
  show "\<exists>r new chunks.
      read_output e timeout max_reads (s, tr) = (r, (s\<lparr>fed := fed s @ chunks\<rparr>, tr @ new))
      \<and> length (filter (\<lambda>c. c = Select (fd s) timeout) new) \<le> nat max_reads
      \<and> length new \<le> 2 * nat max_reads
      \<and> (\<forall>c\<in>set new. c = Select (fd s) timeout \<or> c = Read (fd s) 8192)
      \<and> (\<forall>c\<in>set chunks. length c \<le> 8192)
      \<and> (r = Inr (concat chunks) \<or> (\<exists>x. r = Inl (OSError x)))"
    unfolding read_output_def by (elim exE conjE) (intro exI conjI, auto)
next
  assume "\<not> reads < max_reads"
  then show "read_loop e timeout max_reads reads out (s, tr) = (Inr out, (s, tr))"
    by (rule read_loop_done)
next
  assume "reads < max_reads \<and> select_result e tr (fd s) = Inr False"
  then show "read_loop e timeout max_reads reads out (s, tr) =
          (Inr out, (s, tr @ [Select (fd s) timeout]))"
    by (simp add: read_loop_not_ready)
next
  assume "reads < max_reads \<and> select_result e tr (fd s) = Inr True
        \<and> read_result e (tr @ [Select (fd s) timeout]) (fd s) = Inr []"
  then show "read_loop e timeout max_reads reads out (s, tr) =
          (Inr out, (s, tr @ [Select (fd s) timeout, Read (fd s) 8192]))"
    by (simp add: read_loop_eof [where data = "[]"])
next
  assume "reads < max_reads \<and> select_result e tr (fd s) = Inr True
        \<and> read_result e (tr @ [Select (fd s) timeout]) (fd s) = Inl x"
  then show "read_loop e timeout max_reads reads out (s, tr) =
          (Inr out, (s, tr @ [Select (fd s) timeout, Read (fd s) 8192]))"
    by (simp add: read_loop_read_error)
qed

theorem read_output_bounded_witness:
  "length (snd (snd (read_output chatty_env 100 2 (demo_session, [])))) \<le> 4
   \<and> read_loop quiet_env 100 0 0 [] (demo_session, []) = (Inr [], (demo_session, []))
   \<and> read_loop quiet_env 100 100 0 [] (demo_session, []) =
       (Inr [], (demo_session, [Select 7 100]))
   \<and> read_loop (quiet_env\<lparr>select_result := \<lambda>tr f. Inr True\<rparr>) 100 100 0 [] (demo_session, []) =
       (Inr [], (demo_session, [Select 7 100, Read 7 8192]))
   \<and> read_loop (quiet_env\<lparr>select_result := \<lambda>tr f. Inr True, read_result := \<lambda>tr f. Inl EIO\<rparr>)
         100 100 0 [] (demo_session, []) =
       (Inr [], (demo_session, [Select 7 100, Read 7 8192]))"
proof -
  have f: "fd demo_session = 7" by (simp add: demo_session_def TUISession_def)
  from read_output_bounded [of chatty_env 100 2 demo_session "[]" 0 "[]" EIO]
  obtain r new chunks
    where "read_output chatty_env 100 2 (demo_session, []) =
             (r, (demo_session\<lparr>fed := fed demo_session @ chunks\<rparr>, [] @ new))"
      and "length new \<le> 2 * nat 2"
    by blast
  then have a: "length (snd (snd (read_output chatty_env 100 2 (demo_session, [])))) \<le> 4"
    by simp
  from read_output_bounded [of quiet_env 100 0 demo_session "[]" 0 "[]" EIO]
  have b: "read_loop quiet_env 100 0 0 [] (demo_session, []) = (Inr [], (demo_session, []))"
    by simp
  from read_output_bounded [of quiet_env 100 100 demo_session "[]" 0 "[]" EIO]
  have c: "read_loop quiet_env 100 100 0 [] (demo_session, []) =
       (Inr [], (demo_session, [Select 7 100]))"
    by (simp add: quiet_env_def f)
  from read_output_bounded [of "quiet_env\<lparr>select_result := \<lambda>tr f. Inr True\<rparr>" 100 100
      demo_session "[]" 0 "[]" EIO]
  have d: "read_loop (quiet_env\<lparr>select_result := \<lambda>tr f. Inr True\<rparr>) 100 100 0 []
       (demo_session, []) = (Inr [], (demo_session, [Select 7 100, Read 7 8192]))"
    by (simp add: quiet_env_def f)
  from read_output_bounded [of "quiet_env\<lparr>select_result := \<lambda>tr f. Inr True,
      read_result := \<lambda>tr f. Inl EIO\<rparr>" 100 100 demo_session "[]" 0 "[]" EIO]
  have g: "read_loop (quiet_env\<lparr>select_result := \<lambda>tr f. Inr True, read_result := \<lambda>tr f. Inl EIO\<rparr>)
         100 100 0 [] (demo_session, []) =
       (Inr [], (demo_session, [Select 7 100, Read 7 8192]))"
    by (simp add: quiet_env_def f)
  from a b c d g show ?thesis by (intro conjI)
qed

text \<open>
  C4, as the claim states it, fails: the counter is incremented before the image is
  rendered, so a capture that fails in rendering leaves it incremented, and the first
  successful capture after such a failure writes \<open>capture_0002.png\<close>.
\<close>

theorem capture_count_counterexample:
  "capture_count demo_session = 0
   \<and> fst (capture render_fails_once (demo_session, [])) = Inl RenderError
   \<and> capture_count (fst (snd (capture render_fails_once (demo_session, [])))) = 1
   \<and> fst (capture render_fails_once (snd (capture render_fails_once (demo_session, [])))) =
       Inr \<lparr>cap_text = [], cap_ansi = [],
            cap_image_path = [str ''tmp'', str ''ab12cd34'', str ''capture_0002.png'']\<rparr>"
proof -
  have q: "select_result render_fails_once t f = Inr False" for t f
    by (simp add: render_fails_once_def quiet_env_def)
  have dsp: "display render_fails_once x = []" for x
    by (simp add: render_fails_once_def quiet_env_def)
  have d: "session_dir demo_session = [str ''tmp'', str ''ab12cd34'']"
    "capture_count demo_session = 0" "fd demo_session = 7"
    by (simp_all add: demo_session_def TUISession_def)
  let ?p1 = "[str ''tmp'', str ''ab12cd34'', capture_name 1]"
  have c1: "capture render_fails_once (demo_session, []) =
      (Inl RenderError, (demo_session\<lparr>capture_count := 1\<rparr>, [Select 7 100, Render ?p1]))"
    using capture_render [OF read_output_default_quiet [OF q], of demo_session "[]"]
    by (simp add: d render_fails_once_def)
  let ?s1 = "demo_session\<lparr>capture_count := 1\<rparr>"
  let ?t1 = "[Select 7 100, Render ?p1]"
  have c2: "fst (capture render_fails_once (?s1, ?t1)) =
      Inr \<lparr>cap_text = [], cap_ansi = [],
            cap_image_path = [str ''tmp'', str ''ab12cd34'', capture_name 2]\<rparr>"
    using capture_render [OF read_output_default_quiet [OF q], of ?s1 ?t1]
    by (simp add: d dsp) (simp add: render_fails_once_def quiet_env_def d)
  from c1 c2 d show ?thesis by (simp add: capture_name_examples)
qed

text \<open>
  C4, amended. The counter starts at 0. A capture leaves it unchanged when the drain raises
  and adds exactly one when the drain returns, whether the rendering then succeeds or
  raises; so it never decreases, over any number of captures, and \<open>_read_output\<close> and
  \<open>send\<close> do not touch it. A successful capture's file is \<open>capture_\<close>, the counter after
  the call written with at least four digits, \<open>.png\<close>, inside the session's directory; when
  the first \<open>n\<close> captures of a session all succeed, the \<open>i\<close>-th of them is number \<open>i\<close>.
\<close>

theorem capture_count_steps:
  fixes e :: env and s :: session
  shows
  "capture_count (TUISession sid cmd r k p f dir now) = 0
   \<and> (\<exists>res s1 tr1. capture e (s, tr) = (res, (s1, tr1))
        \<and> session_dir s1 = session_dir s
        \<and> capture_count s \<le> capture_count s1 \<and> capture_count s1 \<le> capture_count s + 1
        \<and> (\<forall>c. res = Inr c \<longrightarrow> capture_count s1 = capture_count s + 1
               \<and> cap_image_path c = session_dir s @ [capture_name (capture_count s1)])
        \<and> (\<forall>ex. fst (read_output_default e (s, tr)) = Inl ex \<longrightarrow>
               res = Inl ex \<and> capture_count s1 = capture_count s)
        \<and> (\<forall>out. fst (read_output_default e (s, tr)) = Inr out \<longrightarrow>
               capture_count s1 = capture_count s + 1))
   \<and> capture_count s \<le> capture_count (fst (snd (captures e n (s, tr))))
   \<and> ((\<forall>x\<in>set (fst (captures e n (s, tr))). \<exists>c. x = Inr c) \<and> capture_count s = 0 \<and> i < n \<longrightarrow>
        (\<exists>c. fst (captures e n (s, tr)) ! i = Inr c
           \<and> cap_image_path c = session_dir s @ [capture_name (int i + 1)]))
   \<and> capture_count (fst (snd (read_output e timeout max_reads (s, tr)))) = capture_count s
   \<and> capture_count (fst (snd (send e data wait_ms (s, tr)))) = capture_count s
   \<and> capture_name 1 = str ''capture_0001.png''
   \<and> capture_name 2 = str ''capture_0002.png''"
proof -
  obtain rs s' tr' where c: "captures e n (s, tr) = (rs, (s', tr'))" by (metis prod.exhaust)
  have a: "capture_count (TUISession sid cmd r k p f dir now) = 0"
    by (simp add: TUISession_def)
  have m: "capture_count s \<le> capture_count (fst (snd (captures e n (s, tr))))"
    using captures_monotone [OF c] c by simp
  have sq: "(\<forall>x\<in>set (fst (captures e n (s, tr))). \<exists>c. x = Inr c) \<and> capture_count s = 0 \<and> i < n \<longrightarrow>
        (\<exists>c. fst (captures e n (s, tr)) ! i = Inr c
           \<and> cap_image_path c = session_dir s @ [capture_name (int i + 1)])"
    using captures_all_ok [OF c, of i] c by auto
  from a capture_step [of e s tr] m sq read_output_keeps_count [of e timeout max_reads s tr]
    send_keeps_count [of e data wait_ms s tr] capture_name_examples(1,2)
  show ?thesis by (intro conjI)
qed

theorem capture_count_steps_witness:
  "fst (captures quiet_env 2 (demo_session, [])) ! 1 =
     Inr \<lparr>cap_text = [], cap_ansi = [],
          cap_image_path = [str ''tmp'', str ''ab12cd34'', str ''capture_0002.png'']\<rparr>
   \<and> capture_count (fst (snd (capture quiet_env (demo_session, [])))) = 1"
proof -
  have q: "select_result quiet_env t f = Inr False" for t f by (simp add: quiet_env_def)
  have rn: "render_result quiet_env t p = None" for t p by (simp add: quiet_env_def)
  have dsp: "display quiet_env x = []" for x by (simp add: quiet_env_def)
  have d: "session_dir demo_session = [str ''tmp'', str ''ab12cd34'']"
    "capture_count demo_session = 0" "fd demo_session = 7"
    by (simp_all add: demo_session_def TUISession_def)
  have cap: "capture quiet_env (s, t) =
      (Inr \<lparr>cap_text = [], cap_ansi = [],
            cap_image_path = session_dir s @ [capture_name (capture_count s + 1)]\<rparr>,
       (s\<lparr>capture_count := capture_count s + 1\<rparr>,
        (t @ [Select (fd s) 100]) @ [Render (session_dir s @ [capture_name (capture_count s + 1)])]))"
    for s :: session and t
    using capture_render [OF read_output_default_quiet [OF q], of s t]
    by (simp add: rn dsp)
  have two: "fst (captures quiet_env 2 (demo_session, [])) =
      [Inr \<lparr>cap_text = [], cap_ansi = [],
            cap_image_path = [str ''tmp'', str ''ab12cd34'', capture_name 1]\<rparr>,
       Inr \<lparr>cap_text = [], cap_ansi = [],
            cap_image_path = [str ''tmp'', str ''ab12cd34'', capture_name 2]\<rparr>]"
    by (simp add: numeral_2_eq_2 cap d)
  have first: "fst (read_output_default quiet_env (demo_session, [])) = Inr []"
    by (simp add: read_output_default_quiet [OF q])
  note inst = capture_count_steps [where e = quiet_env and s = demo_session and tr = "[]"
      and n = 2 and i = 1 and timeout = 100 and max_reads = 100 and data = "[]" and wait_ms = 0
      and sid = "[]" and cmd = "[]" and r = 0 and k = 0 and p = 0 and f = 0 and dir = "[]"
      and now = 0]
  from inst two d have a: "\<exists>c. fst (captures quiet_env 2 (demo_session, [])) ! 1 = Inr c
       \<and> cap_image_path c = session_dir demo_session @ [capture_name (int 1 + 1)]"
    by simp
  from inst first d have b: "capture_count (fst (snd (capture quiet_env (demo_session, [])))) = 1"
    by auto
  from a b two d show ?thesis by (simp add: capture_name_examples)
qed

text \<open>
  C5. The claim holds that every session whose process is still running stays in the map,
  untouched. The code does otherwise for a running process that answers the probe with
  \<open>EPERM\<close>: \<open>is_alive\<close> returns \<open>False\<close> for it, as it does for every \<open>OSError\<close>, so
  \<open>cleanup_dead\<close> counts the session, removes it from the map and closes its descriptor. The
  other session, whose probe succeeds, stays.
\<close>

theorem cleanup_dead_removes_running:
  "cleanup_dead eperm_env (demo_manager, []) =
     (Inr 1, (demo_manager\<lparr>sessions := [(str ''ab12cd34'', demo_session)]\<rparr>,
              [Kill 4242 SIG0, Kill 99 SIG0, Close 8, Kill 99 SIG0]))
   \<and> kill_result eperm_env [Kill 4242 SIG0] (pid dead_session) SIG0 = Some EPERM
   \<and> get demo_manager (str ''ef56ab78'') = Some dead_session
   \<and> get (fst (snd (cleanup_dead eperm_env (demo_manager, [])))) (str ''ef56ab78'') = None"
proof -
  have ne: "str ''ab12cd34'' \<noteq> str ''ef56ab78''" by (simp add: str_def)
  have dist: "distinct (map fst (sessions demo_manager))"
    using ne by (simp add: demo_manager_def)
  have p: "pid demo_session = 4242" "pid dead_session = 99" "fd dead_session = 8"
    by (simp_all add: demo_session_def dead_session_def TUISession_def)
  have k: "kill_result eperm_env t 4242 sg = None" "kill_result eperm_env t 99 sg = Some EPERM"
    for t sg by (simp_all add: eperm_env_def)
  have dead: "found_dead eperm_env (sessions demo_manager) [] = [(str ''ef56ab78'', dead_session)]"
    by (simp add: demo_manager_def is_alive_eq p k)
  have cl: "close eperm_env dead_session t = (Inr (), t @ [Close 8, Kill 99 SIG0])" for t
    by (cases "close_result eperm_env t 8")
       (simp_all add: close_def seq_def except_OSError_def os_close_def is_alive_def os_kill_def
          ret_def p k)
  have tr: "close_all eperm_env [(str ''ef56ab78'', dead_session)]
              (probes (sessions demo_manager)) =
            [Kill 4242 SIG0, Kill 99 SIG0, Close 8, Kill 99 SIG0]"
    by (simp add: close_all_def cl probes_def demo_manager_def p)
  have flt: "filter (\<lambda>kv. fst kv \<noteq> str ''ef56ab78'') (sessions demo_manager) =
               [(str ''ab12cd34'', demo_session)]"
    using ne by (simp add: demo_manager_def)
  from cleanup_dead_sweeps [of demo_manager eperm_env "[]"] dist
  have a: "cleanup_dead eperm_env (demo_manager, []) =
       (Inr 1, (demo_manager\<lparr>sessions := [(str ''ab12cd34'', demo_session)]\<rparr>,
                [Kill 4242 SIG0, Kill 99 SIG0, Close 8, Kill 99 SIG0]))"
    by (simp add: Let_def dead tr flt)
  have g: "get demo_manager (str ''ef56ab78'') = Some dead_session"
    using ne by (simp add: get_def demo_manager_def)
  have g': "get (demo_manager\<lparr>sessions := [(str ''ab12cd34'', demo_session)]\<rparr>) (str ''ef56ab78'') = None"
    using ne by (simp add: get_def)
  from a g g' k(2) p show ?thesis by simp
qed

end
